theory Spec2Isabelle
  imports Main "HOL-Library.Word" "HOL-Library.Sublist"
begin

unbundle bit_operations_syntax

section \<open>The socket wrapper of zmq.js\<close>

text \<open>
  The module wraps a native messaging socket (\<open>this._zmq\<close>), a readiness watcher
  (\<open>this._watcher\<close>) and an event emitter. Everything the wrapper calls but does not
  define lives outside the file: the native binding with its constants, the watcher, the
  listeners the application registered, \<open>util.inspect\<close> and the \<open>Buffer\<close>
  constructor. The embedding takes that outside world as a value of an arbitrary type
  \<open>'e\<close> together with a record of the operations on it; every operation returns the
  new outside world, and an operation that can throw returns the thrown value in its
  result.
\<close>

subsection \<open>Data\<close>

type_synonym bytes = "8 word list"

text \<open>A queue entry is the pair \<open>[part, flags]\<close> that \<open>send\<close> pushes.\<close>

type_synonym entry = "bytes \<times> 32 word"

text \<open>
  An error object. The catch block of \<open>_flush\<close> stores two properties on the value
  it caught, \<open>e.flags\<close> and \<open>e.outgoing\<close>; \<open>None\<close> is a property that is absent
  or \<open>undefined\<close>. What the native binding throws is an error object.
\<close>

record exn =
  message :: string
  exn_flags :: "32 word option"
  exn_outgoing :: "string option"

text \<open>
  A thrown value. A listener is code of the application and can throw any value: an
  object, a primitive value (a string, a number, a boolean), or \<open>null\<close> or
  \<open>undefined\<close>. The difference shows in the catch block of \<open>_flush\<close>: the
  assignment \<open>e.flags = flags\<close> stores the property on an object, has no effect on a
  primitive value (the module is not in strict mode), and throws a \<open>TypeError\<close> when
  \<open>e\<close> is \<open>null\<close> or \<open>undefined\<close>.
\<close>

datatype thrown_value = Obj exn | Prim string | Nullish

text \<open>An argument of \<open>send\<close>: a \<open>Buffer\<close>, or a value that is converted to one.\<close>

datatype part = Buffer bytes | Text string

datatype event = Message "bytes list" | Error thrown_value

text \<open>
  What the listeners of an event do before \<open>emit\<close> returns: they may call
  \<open>send\<close> on the socket again (each element of \<open>calls\<close> is the argument list of
  one such call, in order), and they return or throw. \<open>emit('error', e)\<close> without a
  listener throws, which is a reaction with \<open>thrown\<close> set.
\<close>

record reaction =
  calls :: "part list list"
  thrown :: "thrown_value option"

text \<open>
  The trace of the calls the wrapper makes to the outside world, in order, each with
  what it returned or threw. The trace is the only field of the model that the source
  does not have; the theorems read it, no function of the model does.
\<close>

datatype call =
    Get_ioevents "exn + 32 word"
  | Get_receiveMore "exn + bool"
  | Recv "exn + bytes"
  | Send bytes "32 word" "exn option"
  | Emit event
  | Watcher_stop
  | Watcher_start
  | Zmq_bind string "exn option"
  | Zmq_bindSync string "exn option"
  | Zmq_connect string "exn option"
  | Callback "exn option"

text \<open>
  The binding and the rest of the outside world. The constants \<open>zmq.ZMQ_POLLIN\<close>,
  \<open>zmq.ZMQ_POLLOUT\<close>, \<open>zmq.ZMQ_SNDMORE\<close> and \<open>zmq.STATE_READY\<close> are defined by the
  native binding and are parameters here. \<open>ioevents\<close> and \<open>receiveMore\<close> are the
  getters \<open>this._ioevents\<close> and \<open>this._receiveMore\<close> (a \<open>getsockopt\<close> each; the
  loop only tests the second for truth, so it is a \<open>bool\<close>).
\<close>

record 'e binding =
  ZMQ_POLLIN :: "32 word"
  ZMQ_POLLOUT :: "32 word"
  ZMQ_SNDMORE :: "32 word"
  STATE_READY :: nat
  ioevents :: "'e \<Rightarrow> (exn + 32 word) \<times> 'e"
  receiveMore :: "'e \<Rightarrow> (exn + bool) \<times> 'e"
  zmq_recv :: "'e \<Rightarrow> (exn + bytes) \<times> 'e"
  zmq_send :: "bytes \<Rightarrow> 32 word \<Rightarrow> 'e \<Rightarrow> exn option \<times> 'e"
  zmq_state :: "'e \<Rightarrow> nat"
  listeners :: "event \<Rightarrow> 'e \<Rightarrow> reaction \<times> 'e"
  util_inspect :: "entry list \<Rightarrow> string"
  new_Buffer :: "string \<Rightarrow> bytes"

text \<open>The fields of a \<open>Socket\<close> object (\<open>sock_type\<close> is \<open>this.type\<close>, and
  \<open>watcher\<close> says whether \<open>this._watcher\<close> is started), and the trace.\<close>

record 'e socket =
  sock_type :: string
  zmq :: 'e
  outgoing :: "entry list"
  watcher :: bool
  inFlush :: bool
  trace :: "call list"

text \<open>How a block of \<open>_flush\<close> is left: it falls through (or the loop breaks), it
  returns from the function, or it throws.\<close>

datatype exit = Done | Returned | Raised thrown_value

text \<open>The result of a call of a method: the value it threw, if any, and the socket.
  The lifecycle methods throw what the binding throws; \<open>send\<close> and \<open>_flush\<close> can
  throw what a listener threw.\<close>

type_synonym 'e result = "exn option \<times> 'e socket"

type_synonym 'e outcome = "thrown_value option \<times> 'e socket"

subsection \<open>The receive loop\<close>

text \<open>
  \<^verbatim>\<open>do { emitArgs.push(new Buffer(this._zmq.recv())); } while (this._receiveMore);\<close>
  The loop runs as long as the handle reports more parts, so it has fuel: \<open>None\<close> is a
  loop that has not ended within the fuel.
\<close>

fun recv_parts ::
  "'e binding \<Rightarrow> nat \<Rightarrow> bytes list \<Rightarrow> 'e socket \<Rightarrow> ((exn + bytes list) \<times> 'e socket) option" where
  "recv_parts b 0 emitArgs s = None"
| "recv_parts b (Suc n) emitArgs s =
    (case zmq_recv b (zmq s) of
       (Inl e, env) \<Rightarrow> Some (Inl e, s\<lparr>zmq := env, trace := trace s @ [Recv (Inl e)]\<rparr>)
     | (Inr buf, env) \<Rightarrow>
         (let s1 = s\<lparr>zmq := env, trace := trace s @ [Recv (Inr buf)]\<rparr>;
              emitArgs' = emitArgs @ [buf]
          in case receiveMore b (zmq s1) of
               (Inl e, env') \<Rightarrow>
                 Some (Inl e, s1\<lparr>zmq := env', trace := trace s1 @ [Get_receiveMore (Inl e)]\<rparr>)
             | (Inr rcvmore, env') \<Rightarrow>
                 (let s2 = s1\<lparr>zmq := env', trace := trace s1 @ [Get_receiveMore (Inr rcvmore)]\<rparr>
                  in if rcvmore then recv_parts b n emitArgs' s2 else Some (Inr emitArgs', s2))))"

subsection \<open>The send burst\<close>

text \<open>
  \<^verbatim>\<open>while ((flags & zmq.ZMQ_POLLOUT) && (this._outgoing.length !== 0)) {
    sendArgs = this._outgoing.shift();
    this._zmq.send.apply(this._zmq, sendArgs);
    flags = this._ioevents;
  }\<close>
  The result carries the local variable \<open>flags\<close> as the burst leaves it. Every
  iteration shortens the queue, so the loop needs no fuel.
\<close>

function send_burst ::
  "'e binding \<Rightarrow> 32 word \<Rightarrow> 'e socket \<Rightarrow> exn option \<times> 32 word \<times> 'e socket" where
  "send_burst b flags s =
    (if flags AND ZMQ_POLLOUT b \<noteq> 0 \<and> outgoing s \<noteq> [] then
       (case outgoing s of
          [] \<Rightarrow> (None, flags, s)
        | (payload, sflags) # rest \<Rightarrow>
            (case zmq_send b payload sflags (zmq s) of
               (Some e, env) \<Rightarrow>
                 (Some e, flags,
                  s\<lparr>zmq := env, outgoing := rest,
                    trace := trace s @ [Send payload sflags (Some e)]\<rparr>)
             | (None, env) \<Rightarrow>
                 (case ioevents b env of
                    (Inl e, env') \<Rightarrow>
                      (Some e, flags,
                       s\<lparr>zmq := env', outgoing := rest,
                         trace := trace s @ [Send payload sflags None, Get_ioevents (Inl e)]\<rparr>)
                  | (Inr w, env') \<Rightarrow>
                      send_burst b w
                        (s\<lparr>zmq := env', outgoing := rest,
                           trace := trace s @ [Send payload sflags None, Get_ioevents (Inr w)]\<rparr>))))
     else (None, flags, s))"
  by pat_completeness auto
termination
  by (relation "measure (\<lambda>(b, flags, s). length (outgoing s))") auto

declare send_burst.simps [simp del]

subsection \<open>send\<close>

text \<open>
  The loop of \<open>send\<close> over its arguments, with the loop variable \<open>i\<close> and the
  array \<open>parts\<close> built so far:
  \<^verbatim>\<open>for (i = 0; i < length; i++) {
    part = arguments[i];
    if (!(part instanceof Buffer)) { part = new Buffer(part, 'utf-8'); }
    flags = 0;
    if (i !== length-1) { flags |= zmq.ZMQ_SNDMORE; }
    parts.push([part, flags]);
  }\<close>
\<close>

function build_parts :: "'e binding \<Rightarrow> part list \<Rightarrow> nat \<Rightarrow> entry list \<Rightarrow> entry list" where
  "build_parts b arguments i parts =
    (if i < length arguments then
       (let part = (case arguments ! i of Buffer x \<Rightarrow> x | Text t \<Rightarrow> new_Buffer b t);
            flags = (if i \<noteq> length arguments - 1 then 0 OR ZMQ_SNDMORE b else 0)
        in build_parts b arguments (i + 1) (parts @ [(part, flags)]))
     else parts)"
  by pat_completeness auto
termination
  by (relation "measure (\<lambda>(b, arguments, i, parts). length arguments - i)") auto

declare build_parts.simps [simp del]

text \<open>
  \<^verbatim>\<open>this._outgoing = this._outgoing.concat(parts); this._flush();\<close>
  A listener that calls \<open>send\<close> reaches \<open>this._flush\<close> again while \<open>_flush\<close> runs.
  The functions from here to \<open>flush_body\<close> take that method as the parameter
  \<open>flush\<close>; \<open>flush\<close> below closes the recursion.
\<close>

definition send ::
  "'e binding \<Rightarrow> ('e socket \<Rightarrow> 'e outcome option) \<Rightarrow> part list \<Rightarrow> 'e socket \<Rightarrow> 'e outcome option" where
  "send b flush arguments s =
     flush (s\<lparr>outgoing := outgoing s @ build_parts b arguments 0 []\<rparr>)"

text \<open>\<^verbatim>\<open>return this._outgoing.length;\<close>\<close>

definition currentSendBacklog :: "'e socket \<Rightarrow> nat" where
  "currentSendBacklog s = length (outgoing s)"

subsection \<open>Emitting an event\<close>

text \<open>The calls of \<open>send\<close> that the listeners make, one after the other; a call that
  throws ends the listener.\<close>

primrec listener_calls ::
  "'e binding \<Rightarrow> ('e socket \<Rightarrow> 'e outcome option) \<Rightarrow> part list list \<Rightarrow> 'e socket \<Rightarrow> 'e outcome option" where
  "listener_calls b flush [] s = Some (None, s)"
| "listener_calls b flush (c # cs) s =
    (case send b flush c s of
       None \<Rightarrow> None
     | Some (Some e, s') \<Rightarrow> Some (Some e, s')
     | Some (None, s') \<Rightarrow> listener_calls b flush cs s')"

text \<open>\<open>this.emit(...)\<close>: the listeners run before \<open>emit\<close> returns.\<close>

definition emit ::
  "'e binding \<Rightarrow> ('e socket \<Rightarrow> 'e outcome option) \<Rightarrow> event \<Rightarrow> 'e socket \<Rightarrow> 'e outcome option" where
  "emit b flush ev s =
    (case listeners b ev (zmq s) of
       (r, env) \<Rightarrow>
         (case listener_calls b flush (calls r) (s\<lparr>zmq := env, trace := trace s @ [Emit ev]\<rparr>) of
            None \<Rightarrow> None
          | Some (Some e, s') \<Rightarrow> Some (Some e, s')
          | Some (None, s') \<Rightarrow> Some (thrown r, s')))"

subsection \<open>The dispatch loop\<close>

text \<open>
  The block under \<open>if (flags & zmq.ZMQ_POLLIN)\<close>:
  \<^verbatim>\<open>emitArgs = ['message'];
  do { ... } while (this._receiveMore);
  this.emit.apply(this, emitArgs);
  if (this._zmq.state != zmq.STATE_READY) { this._inFlush = false; return; }\<close>
\<close>

definition receive ::
  "'e binding \<Rightarrow> ('e socket \<Rightarrow> 'e outcome option) \<Rightarrow> nat \<Rightarrow> 'e socket \<Rightarrow> (exit \<times> 'e socket) option" where
  "receive b flush n s =
    (case recv_parts b n [] s of
       None \<Rightarrow> None
     | Some (Inl e, s1) \<Rightarrow> Some (Raised (Obj e), s1)
     | Some (Inr emitArgs, s1) \<Rightarrow>
         (case emit b flush (Message emitArgs) s1 of
            None \<Rightarrow> None
          | Some (Some e, s2) \<Rightarrow> Some (Raised e, s2)
          | Some (None, s2) \<Rightarrow>
              if zmq_state b (zmq s2) \<noteq> STATE_READY b
              then Some (Returned, s2\<lparr>inFlush := False\<rparr>)
              else Some (Done, s2)))"

text \<open>
  \<^verbatim>\<open>flags = this._ioevents;
  if (this._outgoing.length === 0) { flags &= ~zmq.ZMQ_POLLOUT; }\<close>
  The value of \<open>flags\<close> after these two lines, from the queue and the value read.
\<close>

definition masked :: "'e binding \<Rightarrow> entry list \<Rightarrow> 32 word \<Rightarrow> 32 word" where
  "masked b q w = (if q = [] then w AND NOT (ZMQ_POLLOUT b) else w)"

text \<open>
  One iteration of the \<open>while (true)\<close> loop inside the \<open>try\<close>: it leaves the loop
  (by \<open>break\<close>, \<open>return\<close> or a throw) or reaches the end of the body. \<open>fl\<close> is
  the local variable \<open>flags\<close> before the iteration (\<open>None\<close> is \<open>undefined\<close>, its
  value when \<open>_flush\<close> starts); the result carries \<open>flags\<close> as the iteration leaves
  it, for the catch block.
\<close>

datatype step = Continue | Leave exit

definition iteration ::
  "'e binding \<Rightarrow> ('e socket \<Rightarrow> 'e outcome option) \<Rightarrow> nat \<Rightarrow> 32 word option \<Rightarrow> 'e socket
    \<Rightarrow> (step \<times> 32 word option \<times> 'e socket) option" where
  "iteration b flush n fl s =
    (case ioevents b (zmq s) of
       (Inl e, env) \<Rightarrow>
         Some (Leave (Raised (Obj e)), fl,
               s\<lparr>zmq := env, trace := trace s @ [Get_ioevents (Inl e)]\<rparr>)
     | (Inr w, env) \<Rightarrow>
         (let s1 = s\<lparr>zmq := env, trace := trace s @ [Get_ioevents (Inr w)]\<rparr>;
              flags = masked b (outgoing s1) w
          in if flags = 0 then Some (Leave Done, Some flags, s1)
             else
               (case (if flags AND ZMQ_POLLIN b \<noteq> 0 then receive b flush n s1
                      else Some (Done, s1)) of
                  None \<Rightarrow> None
                | Some (Raised v, s2) \<Rightarrow> Some (Leave (Raised v), Some flags, s2)
                | Some (Returned, s2) \<Rightarrow> Some (Leave Returned, Some flags, s2)
                | Some (Done, s2) \<Rightarrow>
                    (case send_burst b flags s2 of
                       (Some e, flags', s3) \<Rightarrow> Some (Leave (Raised (Obj e)), Some flags', s3)
                     | (None, flags', s3) \<Rightarrow> Some (Continue, Some flags', s3)))))"

text \<open>The loop. One unit of fuel is one iteration; the receive loop of an iteration
  gets the fuel that is left.\<close>

fun loop ::
  "'e binding \<Rightarrow> ('e socket \<Rightarrow> 'e outcome option) \<Rightarrow> nat \<Rightarrow> 32 word option \<Rightarrow> 'e socket
    \<Rightarrow> (exit \<times> 32 word option \<times> 'e socket) option" where
  "loop b flush 0 fl s = None"
| "loop b flush (Suc n) fl s =
    (case iteration b flush n fl s of
       None \<Rightarrow> None
     | Some (Leave x, fl', s') \<Rightarrow> Some (x, fl', s')
     | Some (Continue, fl', s') \<Rightarrow> loop b flush n fl' s')"

subsection \<open>_flush\<close>

text \<open>
  The inner \<open>try\<close> of the catch block, and the last line of \<open>_flush\<close> after it:
  \<^verbatim>\<open>try { this.emit('error', e); }
  catch (e2) { this._inFlush = false; throw e2; }\<close>
\<close>

definition report ::
  "'e binding \<Rightarrow> ('e socket \<Rightarrow> 'e outcome option) \<Rightarrow> thrown_value \<Rightarrow> 'e socket \<Rightarrow> 'e outcome option" where
  "report b flush v s =
    (case emit b flush (Error v) s of
       None \<Rightarrow> None
     | Some (Some e2, s2) \<Rightarrow> Some (Some e2, s2\<lparr>inFlush := False\<rparr>)
     | Some (None, s2) \<Rightarrow> Some (None, s2\<lparr>inFlush := False\<rparr>))"

text \<open>The \<open>TypeError\<close> of the runtime for an assignment to a property of \<open>null\<close> or
  \<open>undefined\<close>.\<close>

definition type_error :: exn where
  "type_error = \<lparr>message = ''TypeError'', exn_flags = None, exn_outgoing = None\<rparr>"

text \<open>
  The body of \<open>_flush\<close>: the guard, the loop inside \<open>try\<close>, the catch block and the
  last line.
  \<^verbatim>\<open>catch (e) {
    e.flags = flags;
    e.outgoing = util.inspect(this._outgoing);
    try { this.emit('error', e); }
    catch (e2) { this._inFlush = false; throw e2; }
  }
  this._inFlush = false;\<close>
  The two assignments stand before the inner \<open>try\<close>. When the value caught is \<open>null\<close>
  or \<open>undefined\<close>, the first of them throws, and that \<open>TypeError\<close> leaves \<open>_flush\<close>
  from inside the catch block: no line that clears the guard is reached.
\<close>

definition flush_body ::
  "'e binding \<Rightarrow> ('e socket \<Rightarrow> 'e outcome option) \<Rightarrow> nat \<Rightarrow> 'e socket \<Rightarrow> 'e outcome option" where
  "flush_body b flush n s =
    (if inFlush s then Some (None, s)
     else
       (case loop b flush n None (s\<lparr>inFlush := True\<rparr>) of
          None \<Rightarrow> None
        | Some (Returned, fl, s1) \<Rightarrow> Some (None, s1)
        | Some (Done, fl, s1) \<Rightarrow> Some (None, s1\<lparr>inFlush := False\<rparr>)
        | Some (Raised v, fl, s1) \<Rightarrow>
            (case v of
               Nullish \<Rightarrow> Some (Some (Obj type_error), s1)
             | Prim p \<Rightarrow> report b flush (Prim p) s1
             | Obj e \<Rightarrow>
                 report b flush
                   (Obj (e\<lparr>exn_flags := fl,
                           exn_outgoing := Some (util_inspect b (outgoing s1))\<rparr>)) s1)))"

text \<open>
  \<open>Socket.prototype._flush\<close>. The fuel bounds the iterations of the loops and the depth
  of the calls of \<open>_flush\<close> from listeners; \<open>None\<close> is a call that has not returned
  within the fuel.
\<close>

primrec flush :: "'e binding \<Rightarrow> nat \<Rightarrow> 'e socket \<Rightarrow> 'e outcome option" where
  "flush b 0 = flush_body b (\<lambda>s. None) 0"
| "flush b (Suc n) = flush_body b (flush b n) (Suc n)"

subsection \<open>bind, bindSync and connect\<close>

text \<open>
  The three methods of the native socket that the wrapper forwards to. \<open>zmq_bind\<close> is
  asynchronous: the call throws (\<open>Inl\<close>), or it returns and the binding calls the
  callback later with the error or with nothing (\<open>Inr\<close>).
\<close>

record 'e lifecycle =
  zmq_bind :: "string \<Rightarrow> 'e \<Rightarrow> (exn + exn option) \<times> 'e"
  zmq_bindSync :: "string \<Rightarrow> 'e \<Rightarrow> exn option \<times> 'e"
  zmq_connect :: "string \<Rightarrow> 'e \<Rightarrow> exn option \<times> 'e"

text \<open>
  \<^verbatim>\<open>self._watcher.stop();
  self._zmq.bind(addr, function(err) { self._watcher.start(); cb(err); });\<close>
  \<open>bind\<close> is the call itself: it returns what it threw, or the argument the callback
  is going to get. \<open>bind_callback\<close> is the function it passes to the binding, with the
  application's \<open>cb\<close> as a parameter.
\<close>

definition bind :: "'e lifecycle \<Rightarrow> string \<Rightarrow> 'e socket \<Rightarrow> (exn + exn option) \<times> 'e socket" where
  "bind l addr s =
    (let s1 = s\<lparr>watcher := False, trace := trace s @ [Watcher_stop]\<rparr>
     in case zmq_bind l addr (zmq s1) of
          (Inl e, env) \<Rightarrow>
            (Inl e, s1\<lparr>zmq := env, trace := trace s1 @ [Zmq_bind addr (Some e)]\<rparr>)
        | (Inr err, env) \<Rightarrow>
            (Inr err, s1\<lparr>zmq := env, trace := trace s1 @ [Zmq_bind addr None]\<rparr>))"

definition bind_callback ::
  "(exn option \<Rightarrow> 'e \<Rightarrow> exn option \<times> 'e) \<Rightarrow> exn option \<Rightarrow> 'e socket \<Rightarrow> 'e result" where
  "bind_callback cb err s =
    (let s1 = s\<lparr>watcher := True, trace := trace s @ [Watcher_start]\<rparr>
     in case cb err (zmq s1) of
          (r, env) \<Rightarrow> (r, s1\<lparr>zmq := env, trace := trace s1 @ [Callback err]\<rparr>))"

text \<open>
  \<^verbatim>\<open>self._watcher.stop();
  try { self._zmq.bindSync(addr); }
  catch (e) { self._watcher.start(); throw e; }
  self._watcher.start();\<close>
\<close>

definition bindSync :: "'e lifecycle \<Rightarrow> string \<Rightarrow> 'e socket \<Rightarrow> 'e result" where
  "bindSync l addr s =
    (let s1 = s\<lparr>watcher := False, trace := trace s @ [Watcher_stop]\<rparr>
     in case zmq_bindSync l addr (zmq s1) of
          (Some e, env) \<Rightarrow>
            (Some e, s1\<lparr>zmq := env, watcher := True,
                        trace := trace s1 @ [Zmq_bindSync addr (Some e), Watcher_start]\<rparr>)
        | (None, env) \<Rightarrow>
            (None, s1\<lparr>zmq := env, watcher := True,
                      trace := trace s1 @ [Zmq_bindSync addr None, Watcher_start]\<rparr>))"

text \<open>\<^verbatim>\<open>this._zmq.connect(addr);\<close>\<close>

definition connect :: "'e lifecycle \<Rightarrow> string \<Rightarrow> 'e socket \<Rightarrow> 'e result" where
  "connect l addr s =
    (case zmq_connect l addr (zmq s) of
       (r, env) \<Rightarrow> (r, s\<lparr>zmq := env, trace := trace s @ [Zmq_connect addr r]\<rparr>))"

subsection \<open>createSocket\<close>

text \<open>The values of the table \<open>types\<close> are constants of the binding; they are kept
  by name.\<close>

datatype zmq_type =
    ZMQ_PUB | ZMQ_SUB | ZMQ_REQ | ZMQ_XREQ | ZMQ_REP | ZMQ_XREP
  | ZMQ_PUSH | ZMQ_PULL | ZMQ_DEALER | ZMQ_ROUTER | ZMQ_PAIR

text \<open>
  The table \<open>types\<close> is an object literal, so the lookup \<open>types[type]\<close> goes on to
  \<open>Object.prototype\<close> when the name is not a key of the table: for a name such as
  \<open>constructor\<close> or \<open>toString\<close> it gives the inherited member, a function or an
  object, and \<open>undefined\<close> only for a name that is found in neither. The inherited
  members are kept by name.
\<close>

datatype js_value = Constant zmq_type | Inherited string | Undefined

definition own_types :: "(string \<times> zmq_type) list" where
  "own_types =
    [(''pub'', ZMQ_PUB), (''sub'', ZMQ_SUB), (''req'', ZMQ_REQ), (''xreq'', ZMQ_XREQ),
     (''rep'', ZMQ_REP), (''xrep'', ZMQ_XREP), (''push'', ZMQ_PUSH), (''pull'', ZMQ_PULL),
     (''dealer'', ZMQ_DEALER), (''router'', ZMQ_ROUTER), (''pair'', ZMQ_PAIR)]"

definition object_prototype :: "string list" where
  "object_prototype =
    [''constructor'', ''toString'', ''toLocaleString'', ''valueOf'', ''hasOwnProperty'',
     ''isPrototypeOf'', ''propertyIsEnumerable'', ''__defineGetter__'', ''__defineSetter__'',
     ''__lookupGetter__'', ''__lookupSetter__'', ''__proto__'']"

definition types :: "string \<Rightarrow> js_value" where
  "types name =
    (case map_of own_types name of
       Some t \<Rightarrow> Constant t
     | None \<Rightarrow> if List.member object_prototype name then Inherited name else Undefined)"

text \<open>
  Modelled from the spec: the error with which the constructor of the native binding
  rejects a socket type. The binding is not part of the source; the spec calls the error
  a configuration error and says no more about it.
\<close>

definition configuration_error :: exn where
  "configuration_error = \<lparr>message = ''unknown socket type'', exn_flags = None, exn_outgoing = None\<rparr>"

text \<open>
  Modelled from the spec: the constructor \<open>zmq.Socket\<close> of the native binding, which
  is not part of the source. The spec says of it only that ``\<open>typeName\<close> must be a key of
  the closed socket-type enumeration; unknown types fail with a configuration error''.
  The wrapper passes \<open>types[type]\<close>, so the constructor returns the handle of a new
  socket (\<open>open_handle\<close>, a parameter) when it gets one of the constants of the
  enumeration, and throws when it gets anything else: \<open>undefined\<close>, or a member of
  \<open>Object.prototype\<close>.
\<close>

definition zmq_Socket :: "(zmq_type \<Rightarrow> 'e) \<Rightarrow> js_value \<Rightarrow> exn + 'e" where
  "zmq_Socket open_handle ty =
    (case ty of
       Constant t \<Rightarrow> Inr (open_handle t)
     | Inherited member \<Rightarrow> Inl configuration_error
     | Undefined \<Rightarrow> Inl configuration_error)"

text \<open>
  The constructor \<open>Socket\<close>: a throw of \<open>new zmq.Socket\<close> leaves it before the queue
  and the watcher exist.
  \<^verbatim>\<open>this.type = type;
  this._zmq = new zmq.Socket(defaultContext(), types[type]);
  this._outgoing = [];
  this._watcher = new IOWatcher; ... this._watcher.start();
  this._inFlush = false;\<close>
\<close>

definition Socket :: "(zmq_type \<Rightarrow> 'e) \<Rightarrow> string \<Rightarrow> exn + 'e socket" where
  "Socket open_handle type_name =
    (case zmq_Socket open_handle (types type_name) of
       Inl e \<Rightarrow> Inl e
     | Inr h \<Rightarrow>
         Inr \<lparr>sock_type = type_name, zmq = h, outgoing = [], watcher = True, inFlush = False,
              trace = [Watcher_start]\<rparr>)"

text \<open>
  \<^verbatim>\<open>sock = new Socket(typename);
  if (typeof(options) === 'object') {
    for (key in options) { if (options.hasOwnProperty(key)) { sock[key] = options[key]; } }
  }
  return sock;\<close>
  An assignment \<open>sock[key] = value\<close> runs the setter of the option \<open>key\<close>, which
  calls \<open>setsockopt\<close> of the binding and may throw; \<open>assign\<close> is that assignment on
  the outside world. \<open>None\<close> for \<open>options\<close> is a value that is not an object.
\<close>

fun assign_options ::
  "(string \<Rightarrow> part \<Rightarrow> 'e \<Rightarrow> exn option \<times> 'e) \<Rightarrow> (string \<times> part) list \<Rightarrow> 'e socket
    \<Rightarrow> exn + 'e socket" where
  "assign_options assign [] sock = Inr sock"
| "assign_options assign ((key, v) # options) sock =
    (case assign key v (zmq sock) of
       (Some e, env) \<Rightarrow> Inl e
     | (None, env) \<Rightarrow> assign_options assign options (sock\<lparr>zmq := env\<rparr>))"

definition createSocket ::
  "(zmq_type \<Rightarrow> 'e) \<Rightarrow> (string \<Rightarrow> part \<Rightarrow> 'e \<Rightarrow> exn option \<times> 'e) \<Rightarrow> string
    \<Rightarrow> (string \<times> part) list option \<Rightarrow> exn + 'e socket" where
  "createSocket open_handle assign typename options =
    (case Socket open_handle typename of
       Inl e \<Rightarrow> Inl e
     | Inr sock \<Rightarrow>
         (case options of
            None \<Rightarrow> Inr sock
          | Some kvs \<Rightarrow> assign_options assign kvs sock))"

section \<open>Reading the trace\<close>

text \<open>The entries handed to the handle's \<open>send\<close>, in the order of the calls, whether
  the call returned or threw.\<close>

fun send_of :: "call \<Rightarrow> entry list" where
  "send_of (Send payload sflags r) = [(payload, sflags)]"
| "send_of _ = []"

definition sends :: "call list \<Rightarrow> entry list" where
  "sends tr = concat (map send_of tr)"

text \<open>The entries of the calls of \<open>send\<close> that threw.\<close>

fun refused_of :: "call \<Rightarrow> entry list" where
  "refused_of (Send payload sflags (Some e)) = [(payload, sflags)]"
| "refused_of _ = []"

definition refusals :: "call list \<Rightarrow> entry list" where
  "refusals tr = concat (map refused_of tr)"

text \<open>The entries of the calls of \<open>send\<close> that returned: the entries transmitted.\<close>

fun delivered_of :: "call \<Rightarrow> entry list" where
  "delivered_of (Send payload sflags None) = [(payload, sflags)]"
| "delivered_of _ = []"

definition delivered :: "call list \<Rightarrow> entry list" where
  "delivered tr = concat (map delivered_of tr)"

text \<open>The events emitted, in order.\<close>

fun event_of :: "call \<Rightarrow> event list" where
  "event_of (Emit ev) = [ev]"
| "event_of _ = []"

definition emitted :: "call list \<Rightarrow> event list" where
  "emitted tr = concat (map event_of tr)"

text \<open>The calls made since the trace had the length of \<open>old\<close>.\<close>

definition calls_since :: "call list \<Rightarrow> call list \<Rightarrow> call list" where
  "calls_since old new = drop (length old) new"

text \<open>
  The calls of one complete multi-part receive that yields the parts \<open>ps\<close>: each part
  is returned by one \<open>recv\<close>, the handle reports \<open>receiveMore\<close> after every part but
  the last, and reports no more after the last.
\<close>

fun recv_trace :: "bytes list \<Rightarrow> call list" where
  "recv_trace [] = []"
| "recv_trace [p] = [Recv (Inr p), Get_receiveMore (Inr False)]"
| "recv_trace (p # q # ps) = [Recv (Inr p), Get_receiveMore (Inr True)] @ recv_trace (q # ps)"

text \<open>The calls of a receive as far as the parts \<open>ps\<close>, each followed by more.\<close>

definition more_trace :: "bytes list \<Rightarrow> call list" where
  "more_trace ps = concat (map (\<lambda>p. [Recv (Inr p), Get_receiveMore (Inr True)]) ps)"

text \<open>What a call of the handle threw; the calls of a trace that threw, in order.\<close>

fun thrown_by :: "call \<Rightarrow> exn list" where
  "thrown_by (Get_ioevents (Inl e)) = [e]"
| "thrown_by (Get_receiveMore (Inl e)) = [e]"
| "thrown_by (Recv (Inl e)) = [e]"
| "thrown_by (Send payload sflags (Some e)) = [e]"
| "thrown_by c = []"

definition throws :: "call list \<Rightarrow> exn list" where
  "throws tr = concat (map thrown_by tr)"

text \<open>The last call of a trace threw \<open>e\<close>, and no call before it threw.\<close>

definition ends_thrown :: "exn \<Rightarrow> call list \<Rightarrow> bool" where
  "ends_thrown e tr \<longleftrightarrow> tr \<noteq> [] \<and> thrown_by (last tr) = [e] \<and> throws (butlast tr) = []"

text \<open>
  The calls of a send burst that sends the first entries of the queue \<open>q\<close> and reads
  the readiness values \<open>ws\<close>, one after each send.
\<close>

definition burst_trace :: "entry list \<Rightarrow> 32 word list \<Rightarrow> call list" where
  "burst_trace q ws =
     concat (map (\<lambda>((payload, sflags), w). [Send payload sflags None, Get_ioevents (Inr w)])
               (zip q ws))"

text \<open>A readiness value that reports writable and nothing else.\<close>

definition writable_only :: "'e binding \<Rightarrow> 32 word \<Rightarrow> bool" where
  "writable_only b w \<longleftrightarrow>
     w AND ZMQ_POLLOUT b \<noteq> 0 \<and> w AND NOT (ZMQ_POLLOUT b) = 0 \<and> w AND ZMQ_POLLIN b = 0"

text \<open>A handle whose readiness, whenever it is read, is writable and nothing else; a
  handle whose \<open>send\<close> never throws.\<close>

definition always_writable :: "'e binding \<Rightarrow> bool" where
  "always_writable b \<longleftrightarrow> (\<forall>env. \<exists>w env'. ioevents b env = (Inr w, env') \<and> writable_only b w)"

definition accepts_all :: "'e binding \<Rightarrow> bool" where
  "accepts_all b \<longleftrightarrow> (\<forall>payload sflags env. fst (zmq_send b payload sflags env) = None)"

text \<open>The conversion of an argument of \<open>send\<close> to a \<open>Buffer\<close>.\<close>

definition to_buffer :: "'e binding \<Rightarrow> part \<Rightarrow> bytes" where
  "to_buffer b p = (case p of Buffer x \<Rightarrow> x | Text t \<Rightarrow> new_Buffer b t)"

text \<open>
  The queue entries of one call of \<open>send\<close> as the specification words them: one entry
  per part, in the order of the arguments, the ``more'' flag on all but the last.
\<close>

definition spec_entries :: "'e binding \<Rightarrow> part list \<Rightarrow> entry list" where
  "spec_entries b ps =
     (if ps = [] then []
      else map (\<lambda>p. (to_buffer b p, ZMQ_SNDMORE b)) (butlast ps) @ [(to_buffer b (last ps), 0)])"

text \<open>What the calls of \<open>send\<close> of a listener append to the queue.\<close>

definition enqueued :: "'e binding \<Rightarrow> part list list \<Rightarrow> entry list" where
  "enqueued b cs = concat (map (\<lambda>arguments. build_parts b arguments 0 []) cs)"

text \<open>The value that the catch block of \<open>_flush\<close> hands to the listeners of \<open>error\<close>:
  the value caught, with the two properties stored on it when it is an object.\<close>

definition annotated :: "32 word option \<Rightarrow> string \<Rightarrow> thrown_value \<Rightarrow> thrown_value" where
  "annotated fl rendering v =
     (case v of
        Obj e \<Rightarrow> Obj (e\<lparr>exn_flags := fl, exn_outgoing := Some rendering\<rparr>)
      | Prim p \<Rightarrow> Prim p
      | Nullish \<Rightarrow> Nullish)"

text \<open>
  The outside world after a call: every call of the trace but the calls of the watcher
  and of the lifecycle methods is a call of one operation of the binding, or the run of
  the listeners of one event, and moves the world as that operation does. \<open>replay\<close>
  is the world after the calls of a trace, from the world before them.
\<close>

definition after :: "'e binding \<Rightarrow> 'e \<Rightarrow> call \<Rightarrow> 'e" where
  "after b env c =
     (case c of
        Get_ioevents x \<Rightarrow> snd (ioevents b env)
      | Get_receiveMore x \<Rightarrow> snd (receiveMore b env)
      | Recv x \<Rightarrow> snd (zmq_recv b env)
      | Send payload sflags x \<Rightarrow> snd (zmq_send b payload sflags env)
      | Emit ev \<Rightarrow> snd (listeners b ev env)
      | _ \<Rightarrow> env)"

primrec replay :: "'e binding \<Rightarrow> 'e \<Rightarrow> call list \<Rightarrow> 'e" where
  "replay b env [] = env"
| "replay b env (c # X) = replay b (after b env c) X"

text \<open>
  What the listeners enqueue during the calls of a trace that starts in the world
  \<open>env\<close>: for every event emitted, the entries of the calls of \<open>send\<close> that the
  listeners of the event make in the world in which it is emitted, in the order of the
  events.
\<close>

definition queued_at :: "'e binding \<Rightarrow> 'e \<Rightarrow> call \<Rightarrow> entry list" where
  "queued_at b env c =
     (case c of
        Emit ev \<Rightarrow> enqueued b (calls (fst (listeners b ev env)))
      | _ \<Rightarrow> [])"

primrec queued_by :: "'e binding \<Rightarrow> 'e \<Rightarrow> call list \<Rightarrow> entry list" where
  "queued_by b env [] = []"
| "queued_by b env (c # X) = queued_at b env c @ queued_by b (after b env c) X"



section \<open>Test doubles\<close>

text \<open>
  A scripted outside world for running the model: the readiness values that the next
  reads return (0 when the script has ended), the inbound frames with their ``more''
  flags, the payloads that the handle's \<open>send\<close> refuses, what the listener of
  \<open>message\<close> sends back, and whether the listener of \<open>error\<close> throws its argument
  again, what the listener of \<open>message\<close> throws, if anything, and the state of the
  handle. The constants have the values of \<open>zmq.h\<close>.
\<close>

record world =
  readiness :: "32 word list"
  inbound :: "(bytes \<times> bool) list"
  rcvmore :: bool
  refused :: "bytes list"
  replies :: "part list list"
  rethrow :: bool
  message_throws :: "thrown_value option"
  handle_state :: nat

definition failure :: "string \<Rightarrow> exn" where
  "failure m = \<lparr>message = m, exn_flags = None, exn_outgoing = None\<rparr>"

definition stub :: "world binding" where
  "stub =
    \<lparr>ZMQ_POLLIN = 1, ZMQ_POLLOUT = 2, ZMQ_SNDMORE = 2, STATE_READY = 0,
     ioevents = (\<lambda>w. case readiness w of
                        [] \<Rightarrow> (Inr 0, w)
                      | x # xs \<Rightarrow> (Inr x, w\<lparr>readiness := xs\<rparr>)),
     receiveMore = (\<lambda>w. (Inr (rcvmore w), w)),
     zmq_recv = (\<lambda>w. case inbound w of
                        [] \<Rightarrow> (Inl (failure ''recv''), w)
                      | (p, m) # fs \<Rightarrow> (Inr p, w\<lparr>inbound := fs, rcvmore := m\<rparr>)),
     zmq_send = (\<lambda>p f w. if List.member (refused w) p then (Some (failure ''send''), w)
                          else (None, w)),
     zmq_state = handle_state,
     listeners = (\<lambda>ev w. case ev of
                        Message ps \<Rightarrow> (\<lparr>calls = replies w, thrown = message_throws w\<rparr>, w)
                      | Error e \<Rightarrow>
                          (\<lparr>calls = [], thrown = (if rethrow w then Some e else None)\<rparr>, w)),
     util_inspect = (\<lambda>q. replicate (length q) CHR ''#''),
     new_Buffer = map (\<lambda>c. of_nat (of_char c))\<rparr>"

definition ping :: bytes where
  "ping = [112, 105, 110, 103]"

definition pong :: bytes where
  "pong = [112, 111, 110, 103]"

definition quiet :: world where
  "quiet = \<lparr>readiness = [], inbound = [], rcvmore = False, refused = [], replies = [],
            rethrow = False, message_throws = None, handle_state = 0\<rparr>"

definition fresh :: "world \<Rightarrow> world socket" where
  "fresh w =
     \<lparr>sock_type = ''req'', zmq = w, outgoing = [], watcher = True, inFlush = False, trace = []\<rparr>"

text \<open>A socket with two entries queued on a handle that is writable and refuses the
  first of them; the argument says whether the listener of \<open>error\<close> throws. And the
  error that \<open>_flush\<close> reports for it.\<close>

definition jammed :: "bool \<Rightarrow> world socket" where
  "jammed again =
     (fresh (quiet\<lparr>readiness := [2], refused := [ping], rethrow := again\<rparr>))
       \<lparr>outgoing := [(ping, 0), (pong, 0)]\<rparr>"

definition send_refused :: exn where
  "send_refused = \<lparr>message = ''send'', exn_flags = Some 2, exn_outgoing = Some ''#''\<rparr>"

text \<open>A socket with a two-part message queued on a handle whose readiness is writable
  for the next read and nothing after it.\<close>

definition loaded :: "world socket" where
  "loaded = (fresh (quiet\<lparr>readiness := [2, 0]\<rparr>))\<lparr>outgoing := [(ping, 2), (pong, 0)]\<rparr>"





text \<open>A socket with a message of one part waiting, whose listener of \<open>message\<close>
  throws a string.\<close>

definition grumbling :: "world socket" where
  "grumbling =
     fresh (quiet\<lparr>readiness := [1], inbound := [(ping, False)],
                   message_throws := Some (Prim ''no'')\<rparr>)"

text \<open>A handle that is writable whenever it is asked, never readable, and accepts every
  send.\<close>

definition writable_stub :: "unit binding" where
  "writable_stub =
    \<lparr>ZMQ_POLLIN = 1, ZMQ_POLLOUT = 2, ZMQ_SNDMORE = 2, STATE_READY = 0,
     ioevents = (\<lambda>u. (Inr 2, u)),
     receiveMore = (\<lambda>u. (Inr False, u)),
     zmq_recv = (\<lambda>u. (Inl (failure ''recv''), u)),
     zmq_send = (\<lambda>p f u. (None, u)),
     zmq_state = (\<lambda>u. 0),
     listeners = (\<lambda>ev u. (\<lparr>calls = [], thrown = None\<rparr>, u)),
     util_inspect = (\<lambda>q. replicate (length q) CHR ''#''),
     new_Buffer = map (\<lambda>c. of_nat (of_char c))\<rparr>"

text \<open>A new socket on that handle.\<close>

definition plain :: "unit socket" where
  "plain =
     \<lparr>sock_type = ''sub'', zmq = (), outgoing = [], watcher = True, inFlush = False, trace = []\<rparr>"

text \<open>Lifecycle methods of a handle that fail for the address \<open>bad\<close>, the failure of
  \<open>bind\<close> being reported to the callback; and a callback of the application that
  returns.\<close>

definition lifecycle_stub :: "unit lifecycle" where
  "lifecycle_stub =
    \<lparr>zmq_bind = (\<lambda>addr u. (Inr (if addr = ''bad'' then Some (failure ''bind'') else None), u)),
     zmq_bindSync = (\<lambda>addr u. (if addr = ''bad'' then Some (failure ''bind'') else None, u)),
     zmq_connect = (\<lambda>addr u. (if addr = ''bad'' then Some (failure ''connect'') else None, u))\<rparr>"

definition done_callback :: "exn option \<Rightarrow> unit \<Rightarrow> exn option \<times> unit" where
  "done_callback err u = (None, u)"

text \<open>The keys of the table \<open>types\<close>.\<close>

definition type_names :: "string list" where
  "type_names = map fst own_types"

section \<open>Properties\<close>

subsection \<open>The queue entries of send\<close>

lemma build_parts_drop:
  "build_parts b args i parts = parts @ drop i (spec_entries b args)"
proof (induction b args i parts rule: build_parts.induct)
  case (1 b arguments i parts)
  show ?case
  proof (cases "i < length arguments")
    case False
    then show ?thesis by (subst build_parts.simps) (simp add: spec_entries_def)
  next
    case True
    then have ne: "arguments \<noteq> []" by auto
    have len: "length (spec_entries b arguments) = length arguments"
      using ne by (simp add: spec_entries_def)
    have nth: "spec_entries b arguments ! i =
      (to_buffer b (arguments ! i), if i \<noteq> length arguments - 1 then ZMQ_SNDMORE b else 0)"
      using True ne by (auto simp: spec_entries_def nth_append nth_butlast last_conv_nth)
    have "drop i (spec_entries b arguments) =
        spec_entries b arguments ! i # drop (Suc i) (spec_entries b arguments)"
      using True len by (simp add: Cons_nth_drop_Suc)
    with 1 True nth show ?thesis
      by (subst build_parts.simps) (simp add: to_buffer_def Let_def)
  qed
qed

lemma build_parts_spec: "build_parts b arguments 0 [] = spec_entries b arguments"
  by (simp add: build_parts_drop)

subsection \<open>Calls under the guard\<close>

text \<open>A call of \<open>_flush\<close> with the guard set returns at once and changes nothing. The
  lemmas after it hold for every method \<open>F\<close> that behaves so, which lets them be used
  for \<open>flush b n\<close> at every \<open>n\<close>.\<close>

lemma flush_when_guarded: "inFlush s \<Longrightarrow> flush b n s = Some (None, s)"
  by (cases n) (simp_all add: flush_body_def)

lemma send_guarded:
  assumes "\<And>s. inFlush s \<Longrightarrow> F s = Some (None, s)" and "inFlush s"
  shows "send b F arguments s = Some (None, s\<lparr>outgoing := outgoing s @ build_parts b arguments 0 []\<rparr>)"
  using assms by (simp add: send_def)

lemma listener_calls_guarded:
  assumes "\<And>s. inFlush s \<Longrightarrow> F s = Some (None, s)" and "inFlush s"
  shows "listener_calls b F cs s = Some (None, s\<lparr>outgoing := outgoing s @ enqueued b cs\<rparr>)"
  using assms(2)
proof (induction cs arbitrary: s)
  case Nil
  then show ?case by (simp add: enqueued_def)
next
  case (Cons c cs)
  then show ?case
    by (simp add: send_guarded [OF assms(1)] enqueued_def)
qed

lemma emit_guarded:
  assumes "\<And>s. inFlush s \<Longrightarrow> F s = Some (None, s)" and "inFlush s"
  shows "emit b F ev s =
    Some (thrown (fst (listeners b ev (zmq s))),
          s\<lparr>zmq := snd (listeners b ev (zmq s)), trace := trace s @ [Emit ev],
            outgoing := outgoing s @ enqueued b (calls (fst (listeners b ev (zmq s))))\<rparr>)"
  using assms(2)
  by (cases "listeners b ev (zmq s)")
     (simp add: emit_def listener_calls_guarded [OF assms(1)] split: option.splits)

subsection \<open>What the loops keep\<close>

lemma sends_append [simp]: "sends (xs @ ys) = sends xs @ sends ys"
  by (simp add: sends_def)

lemma sends_simps [simp]:
  "sends [] = []"
  "sends (Send p f r # tr) = (p, f) # sends tr"
  "sends (Get_ioevents w # tr) = sends tr"
  "sends (Get_receiveMore m # tr) = sends tr"
  "sends (Recv x # tr) = sends tr"
  "sends (Emit ev # tr) = sends tr"
  by (simp_all add: sends_def)

lemma recv_parts_frame:
  "recv_parts b n acc s = Some (x, s') \<Longrightarrow>
     inFlush s' = inFlush s \<and> outgoing s' = outgoing s \<and> watcher s' = watcher s \<and>
     sends (trace s') = sends (trace s) \<and> prefix (trace s) (trace s')"
proof (induction n arbitrary: acc s)
  case 0
  then show ?case by simp
next
  case (Suc n)
  show ?case
  proof (cases "zmq_recv b (zmq s)")
    case (Pair r env)
    show ?thesis
    proof (cases r)
      case (Inl e)
      with Pair Suc.prems show ?thesis by auto
    next
      case (Inr buf)
      let ?s1 = "s\<lparr>zmq := env, trace := trace s @ [Recv (Inr buf)]\<rparr>"
      show ?thesis
      proof (cases "receiveMore b env")
        case (Pair m env')
        note P2 = this
        show ?thesis
        proof (cases m)
          case (Inl e)
          with \<open>zmq_recv b (zmq s) = (r, env)\<close> Inr P2 Suc.prems show ?thesis by auto
        next
          case (Inr rcvmore)
          let ?s2 = "?s1\<lparr>zmq := env', trace := trace ?s1 @ [Get_receiveMore (Inr rcvmore)]\<rparr>"
          show ?thesis
          proof (cases rcvmore)
            case False
            with \<open>zmq_recv b (zmq s) = (r, env)\<close> \<open>r = Inr buf\<close> Inr P2 Suc.prems show ?thesis by auto
          next
            case True
            with \<open>zmq_recv b (zmq s) = (r, env)\<close> \<open>r = Inr buf\<close> Inr P2 Suc.prems
            have "recv_parts b n (acc @ [buf]) ?s2 = Some (x, s')" by simp
            from Suc.IH [OF this] show ?thesis
              by (auto dest: append_prefixD)
          qed
        qed
      qed
    qed
  qed
qed

lemma send_burst_frame:
  "send_burst b flags s = (r, flags', s') \<Longrightarrow>
     inFlush s' = inFlush s \<and> watcher s' = watcher s \<and>
     sends (trace s') @ outgoing s' = sends (trace s) @ outgoing s \<and>
     prefix (trace s) (trace s')"
proof (induction b flags s rule: send_burst.induct)
  case (1 b flags s)
  show ?case
  proof (cases "flags AND ZMQ_POLLOUT b \<noteq> 0 \<and> outgoing s \<noteq> []")
    case False
    with "1.prems" show ?thesis by (subst (asm) send_burst.simps) auto
  next
    case True
    then obtain payload sflags rest where q: "outgoing s = (payload, sflags) # rest"
      by (cases "outgoing s") auto
    obtain r1 env where z: "zmq_send b payload sflags (zmq s) = (r1, env)"
      by (cases "zmq_send b payload sflags (zmq s)")
    show ?thesis
    proof (cases r1)
      case (Some e)
      with True q z "1.prems" show ?thesis by (subst (asm) send_burst.simps) auto
    next
      case None
      obtain r2 env' where i: "ioevents b env = (r2, env')" by (cases "ioevents b env")
      show ?thesis
      proof (cases r2)
        case (Inl e)
        with True q z None i "1.prems" show ?thesis by (subst (asm) send_burst.simps) auto
      next
        case (Inr w)
        let ?s1 = "s\<lparr>zmq := env', outgoing := rest,
                     trace := trace s @ [Send payload sflags None, Get_ioevents (Inr w)]\<rparr>"
        from True q z None i Inr "1.prems" have "send_burst b w ?s1 = (r, flags', s')"
          by (subst (asm) send_burst.simps) simp
        from "1.IH" [OF True q refl z [symmetric] None i [symmetric] Inr this]
        show ?thesis using q by (auto dest: append_prefixD)
      qed
    qed
  qed
qed

lemma receive_frame:
  assumes G: "\<And>s. inFlush s \<Longrightarrow> F s = Some (None, s)"
    and "inFlush s" and "receive b F n s = Some (x, s')"
  shows "watcher s' = watcher s \<and> (inFlush s' \<longleftrightarrow> x \<noteq> Returned) \<and>
         (\<exists>added. outgoing s' = outgoing s @ added) \<and>
         sends (trace s') = sends (trace s) \<and> prefix (trace s) (trace s')"
proof (cases "recv_parts b n [] s")
  case None
  with assms(3) show ?thesis by (simp add: receive_def)
next
  case (Some p)
  obtain y s1 where p: "p = (y, s1)" by (cases p)
  note fr = recv_parts_frame [OF Some [unfolded p]]
  with assms(2) have g1: "inFlush s1" by simp
  show ?thesis
  proof (cases y)
    case (Inl e)
    with Some p assms(3) fr g1 show ?thesis by (auto simp: receive_def)
  next
    case (Inr emitArgs)
    with Some p assms(3) fr g1 show ?thesis
      by (auto simp: receive_def emit_guarded [OF G g1] split: option.splits if_splits
               dest: append_prefixD)
  qed
qed

lemma receive_cong:
  assumes F: "\<And>s. inFlush s \<Longrightarrow> F s = Some (None, s)"
    and G: "\<And>s. inFlush s \<Longrightarrow> G s = Some (None, s)"
    and "inFlush s"
  shows "receive b F n s = receive b G n s"
proof (cases "recv_parts b n [] s")
  case None
  then show ?thesis by (simp add: receive_def)
next
  case (Some p)
  obtain y s1 where p: "p = (y, s1)" by (cases p)
  from recv_parts_frame [OF Some [unfolded p]] assms(3) have g1: "inFlush s1" by simp
  show ?thesis
    using Some p by (cases y) (simp_all add: receive_def emit_guarded [OF F g1] emit_guarded [OF G g1])
qed

lemma iteration_frame:
  assumes G: "\<And>s. inFlush s \<Longrightarrow> F s = Some (None, s)"
    and g: "inFlush s" and it: "iteration b F n fl s = Some (st, fl', s')"
  shows "watcher s' = watcher s \<and> (inFlush s' \<longleftrightarrow> st \<noteq> Leave Returned) \<and>
         (\<exists>added. sends (trace s') @ outgoing s' = sends (trace s) @ outgoing s @ added) \<and>
         prefix (trace s) (trace s')"
proof -
  obtain r env where io: "ioevents b (zmq s) = (r, env)" by (cases "ioevents b (zmq s)")
  show ?thesis
  proof (cases r)
    case (Inl e)
    with io it have "st = Leave (Raised (Obj e))"
      "s' = s\<lparr>zmq := env, trace := trace s @ [Get_ioevents (Inl e)]\<rparr>"
      by (simp_all add: iteration_def)
    with g show ?thesis by simp
  next
    case (Inr w)
    define s1 where "s1 = s\<lparr>zmq := env, trace := trace s @ [Get_ioevents (Inr w)]\<rparr>"
    define flags where "flags = masked b (outgoing s1) w"
    have s1: "inFlush s1" "watcher s1 = watcher s" "outgoing s1 = outgoing s"
      "sends (trace s1) = sends (trace s)" "prefix (trace s) (trace s1)"
      using g by (simp_all add: s1_def)
    define rc where "rc = (if flags AND ZMQ_POLLIN b \<noteq> 0 then receive b F n s1 else Some (Done, s1))"
    have "iteration b F n fl s = (if flags = 0 then Some (Leave Done, Some flags, s1)
             else
               (case rc of
                  None \<Rightarrow> None
                | Some (Raised e, s2) \<Rightarrow> Some (Leave (Raised e), Some flags, s2)
                | Some (Returned, s2) \<Rightarrow> Some (Leave Returned, Some flags, s2)
                | Some (Done, s2) \<Rightarrow>
                    (case send_burst b flags s2 of
                       (Some e, flags', s3) \<Rightarrow> Some (Leave (Raised (Obj e)), Some flags', s3)
                     | (None, flags', s3) \<Rightarrow> Some (Continue, Some flags', s3))))"
      unfolding iteration_def io Inr rc_def flags_def s1_def Let_def by simp
    with it have L: "(if flags = 0 then Some (Leave Done, Some flags, s1)
             else
               (case rc of
                  None \<Rightarrow> None
                | Some (Raised e, s2) \<Rightarrow> Some (Leave (Raised e), Some flags, s2)
                | Some (Returned, s2) \<Rightarrow> Some (Leave Returned, Some flags, s2)
                | Some (Done, s2) \<Rightarrow>
                    (case send_burst b flags s2 of
                       (Some e, flags', s3) \<Rightarrow> Some (Leave (Raised (Obj e)), Some flags', s3)
                     | (None, flags', s3) \<Rightarrow> Some (Continue, Some flags', s3)))) = Some (st, fl', s')"
      by simp
    show ?thesis
    proof (cases "flags = 0")
      case True
      with L have "st = Leave Done" "s' = s1" by simp_all
      with s1 show ?thesis by simp
    next
      case False
      with L have L': "(case rc of
                  None \<Rightarrow> None
                | Some (Raised e, s2) \<Rightarrow> Some (Leave (Raised e), Some flags, s2)
                | Some (Returned, s2) \<Rightarrow> Some (Leave Returned, Some flags, s2)
                | Some (Done, s2) \<Rightarrow>
                    (case send_burst b flags s2 of
                       (Some e, flags', s3) \<Rightarrow> Some (Leave (Raised (Obj e)), Some flags', s3)
                     | (None, flags', s3) \<Rightarrow> Some (Continue, Some flags', s3))) = Some (st, fl', s')"
        by simp
      then obtain y s2 where rc: "rc = Some (y, s2)" by (cases rc) auto
      have fr2: "watcher s2 = watcher s1 \<and> (inFlush s2 \<longleftrightarrow> y \<noteq> Returned) \<and>
         (\<exists>added. outgoing s2 = outgoing s1 @ added) \<and>
         sends (trace s2) = sends (trace s1) \<and> prefix (trace s1) (trace s2)"
      proof (cases "flags AND ZMQ_POLLIN b \<noteq> 0")
        case True
        with rc have "receive b F n s1 = Some (y, s2)" by (simp add: rc_def)
        from receive_frame [OF G s1(1) this] show ?thesis .
      next
        case False
        with rc have "y = Done" "s2 = s1" by (simp_all add: rc_def)
        with s1(1) show ?thesis by simp
      qed
      then obtain added where a: "outgoing s2 = outgoing s1 @ added" by blast
      have p2: "prefix (trace s) (trace s2)"
        using fr2 s1(5) by (meson prefix_order.trans)
      have acc2: "sends (trace s2) @ outgoing s2 = sends (trace s) @ outgoing s @ added"
        using fr2 a s1 by simp
      show ?thesis
      proof (cases y)
        case (Raised e)
        with L' rc have e: "st = Leave (Raised e)" "s' = s2" by simp_all
        have "\<exists>added. sends (trace s2) @ outgoing s2 = sends (trace s) @ outgoing s @ added"
          using acc2 by blast
        with fr2 s1 p2 Raised e show ?thesis by simp
      next
        case Returned
        with L' rc have e: "st = Leave Returned" "s' = s2" by simp_all
        have "\<exists>added. sends (trace s2) @ outgoing s2 = sends (trace s) @ outgoing s @ added"
          using acc2 by blast
        with fr2 s1 p2 Returned e show ?thesis by simp
      next
        case Done
        obtain r3 flags' s3 where sb: "send_burst b flags s2 = (r3, flags', s3)"
          by (cases "send_burst b flags s2")
        note fr3 = send_burst_frame [OF sb]
        have acc3: "sends (trace s3) @ outgoing s3 = sends (trace s) @ outgoing s @ added"
          using fr3 acc2 by simp
        have p3: "prefix (trace s) (trace s3)"
          using fr3 p2 by (meson prefix_order.trans)
        have L3: "(case (r3, flags', s3) of
                       (Some e, flags', s3) \<Rightarrow> Some (Leave (Raised (Obj e)), Some flags', s3)
                     | (None, flags', s3) \<Rightarrow> Some (Continue, Some flags', s3)) = Some (st, fl', s')"
          using L' rc Done sb by simp
        have e: "s' = s3 \<and> st \<noteq> Leave Returned"
        proof (cases r3)
          case None
          with L3 have "Some (Continue, Some flags', s3) = Some (st, fl', s')" by simp
          then show ?thesis by auto
        next
          case (Some e)
          with L3 have "Some (Leave (Raised (Obj e)), Some flags', s3) = Some (st, fl', s')" by simp
          then show ?thesis by auto
        qed
        have "inFlush s3" "watcher s3 = watcher s"
          using fr3 fr2 Done s1 by simp_all
        moreover have "\<exists>added. sends (trace s3) @ outgoing s3 = sends (trace s) @ outgoing s @ added"
          using acc3 by blast
        ultimately show ?thesis using p3 e by simp
      qed
    qed
  qed
qed

lemma iteration_cong:
  assumes F: "\<And>s. inFlush s \<Longrightarrow> F s = Some (None, s)"
    and G: "\<And>s. inFlush s \<Longrightarrow> G s = Some (None, s)"
    and "inFlush s"
  shows "iteration b F n fl s = iteration b G n fl s"
proof -
  have "receive b F n (s\<lparr>zmq := env, trace := tr\<rparr>) = receive b G n (s\<lparr>zmq := env, trace := tr\<rparr>)"
    for env tr using assms(3) by (intro receive_cong [OF F G]) simp_all
  then show ?thesis
    by (cases "ioevents b (zmq s)") (simp add: iteration_def Let_def split: sum.splits)
qed

lemma loop_frame:
  assumes G: "\<And>s. inFlush s \<Longrightarrow> F s = Some (None, s)"
  shows "inFlush s \<Longrightarrow> loop b F n fl s = Some (x, fl', s') \<Longrightarrow>
         watcher s' = watcher s \<and> (inFlush s' \<longleftrightarrow> x \<noteq> Returned) \<and>
         (\<exists>added. sends (trace s') @ outgoing s' = sends (trace s) @ outgoing s @ added) \<and>
         prefix (trace s) (trace s')"
proof (induction n arbitrary: fl s)
  case 0
  then show ?case by simp
next
  case (Suc n)
  from Suc.prems(2) obtain st fl1 s1 where it: "iteration b F n fl s = Some (st, fl1, s1)"
    by (cases "iteration b F n fl s") auto
  note fr = iteration_frame [OF G Suc.prems(1) it]
  show ?case
  proof (cases st)
    case (Leave y)
    with it Suc.prems(2) fr show ?thesis by auto
  next
    case Continue
    with it Suc.prems(2) have "loop b F n fl1 s1 = Some (x, fl', s')" by simp
    from Suc.IH [OF _ this] fr Continue
    have *: "watcher s' = watcher s1" "inFlush s' \<longleftrightarrow> x \<noteq> Returned"
      "\<exists>added. sends (trace s') @ outgoing s' = sends (trace s1) @ outgoing s1 @ added"
      "prefix (trace s1) (trace s')" by auto
    from *(3) fr obtain a1 a2 where
      "sends (trace s') @ outgoing s' = sends (trace s1) @ outgoing s1 @ a1"
      "sends (trace s1) @ outgoing s1 = sends (trace s) @ outgoing s @ a2" by blast
    then have "sends (trace s') @ outgoing s' = sends (trace s) @ outgoing s @ (a2 @ a1)"
      by simp
    then have acc: "\<exists>added. sends (trace s') @ outgoing s' = sends (trace s) @ outgoing s @ added"
      by blast
    have "prefix (trace s) (trace s')"
      using *(4) fr by (meson prefix_order.trans)
    with acc *(1,2) fr show ?thesis by simp
  qed
qed

lemma loop_cong:
  assumes F: "\<And>s. inFlush s \<Longrightarrow> F s = Some (None, s)"
    and G: "\<And>s. inFlush s \<Longrightarrow> G s = Some (None, s)"
  shows "inFlush s \<Longrightarrow> loop b F n fl s = loop b G n fl s"
proof (induction n arbitrary: fl s)
  case 0
  then show ?case by simp
next
  case (Suc n)
  note eq = iteration_cong [OF F G Suc.prems, of b n fl]
  show ?case
  proof (cases "iteration b G n fl s")
    case None
    with eq show ?thesis by simp
  next
    case (Some p)
    obtain st fl1 s1 where p: "p = (st, fl1, s1)" by (cases p)
    note fr = iteration_frame [OF G Suc.prems Some [unfolded p]]
    show ?thesis
    proof (cases st)
      case (Leave y)
      with eq Some p show ?thesis by simp
    next
      case Continue
      with fr have "inFlush s1" by simp
      from Suc.IH [OF this, of fl1] eq Some p Continue show ?thesis by simp
    qed
  qed
qed

subsection \<open>The calls of the two inner loops\<close>

lemma throws_append [simp]: "throws (xs @ ys) = throws xs @ throws ys"
  by (simp add: throws_def)

lemma throws_Nil [simp]: "throws [] = []"
  by (simp add: throws_def)

lemma throws_Cons [simp]: "throws (c # tr) = thrown_by c @ throws tr"
  by (simp add: throws_def)

lemma emitted_append [simp]: "emitted (xs @ ys) = emitted xs @ emitted ys"
  by (simp add: emitted_def)

lemma emitted_Nil [simp]: "emitted [] = []"
  by (simp add: emitted_def)

lemma emitted_Cons [simp]: "emitted (c # tr) = event_of c @ emitted tr"
  by (simp add: emitted_def)

lemma more_trace_simps [simp]:
  "more_trace [] = []"
  "more_trace (p # ps) = Recv (Inr p) # Get_receiveMore (Inr True) # more_trace ps"
  by (simp_all add: more_trace_def)

lemma more_trace_quiet [simp]:
  "sends (more_trace ps) = []" "emitted (more_trace ps) = []" "throws (more_trace ps) = []"
  by (induction ps) simp_all

lemma recv_trace_Cons:
  "ps \<noteq> [] \<Longrightarrow> recv_trace (p # ps) = Recv (Inr p) # Get_receiveMore (Inr True) # recv_trace ps"
  by (cases ps) simp_all

lemma recv_trace_quiet [simp]:
  "sends (recv_trace ps) = []" "emitted (recv_trace ps) = []" "throws (recv_trace ps) = []"
  by (induction ps rule: recv_trace.induct) simp_all

lemma recv_parts_calls:
  "recv_parts b n acc s = Some (x, s') \<Longrightarrow>
     (case x of
        Inr ps \<Rightarrow> \<exists>new. new \<noteq> [] \<and> ps = acc @ new \<and> trace s' = trace s @ recv_trace new
      | Inl e \<Rightarrow> \<exists>got tail. trace s' = trace s @ more_trace got @ tail \<and>
                  (tail = [Recv (Inl e)] \<or> (\<exists>p. tail = [Recv (Inr p), Get_receiveMore (Inl e)])))"
proof (induction n arbitrary: acc s)
  case 0
  then show ?case by simp
next
  case (Suc n)
  obtain r env where rv: "zmq_recv b (zmq s) = (r, env)" by (cases "zmq_recv b (zmq s)")
  show ?case
  proof (cases r)
    case (Inl e)
    with rv Suc.prems have "x = Inl e" "trace s' = trace s @ more_trace [] @ [Recv (Inl e)]"
      by auto
    then show ?thesis by (simp only: sum.case) blast
  next
    case (Inr buf)
    obtain m env' where rm: "receiveMore b env = (m, env')" by (cases "receiveMore b env")
    show ?thesis
    proof (cases m)
      case (Inl e)
      with rv Inr rm Suc.prems have "x = Inl e"
        "trace s' = trace s @ more_trace [] @ [Recv (Inr buf), Get_receiveMore (Inl e)]"
        by auto
      then show ?thesis by (simp only: sum.case) blast
    next
      case (Inr rcvmore)
      show ?thesis
      proof (cases rcvmore)
        case False
        with rv \<open>r = Inr buf\<close> Inr rm Suc.prems have "x = Inr (acc @ [buf])"
          "trace s' = trace s @ recv_trace [buf]" by auto
        then show ?thesis by (simp only: sum.case) blast
      next
        case True
        let ?s2 = "s\<lparr>zmq := env', trace := trace s @ [Recv (Inr buf), Get_receiveMore (Inr True)]\<rparr>"
        from True rv \<open>r = Inr buf\<close> Inr rm Suc.prems
        have "recv_parts b n (acc @ [buf]) ?s2 = Some (x, s')" by simp
        note IH = Suc.IH [OF this]
        show ?thesis
        proof (cases x)
          case (Inl e)
          with IH obtain got tail where
            "trace s' = trace ?s2 @ more_trace got @ tail"
            "tail = [Recv (Inl e)] \<or> (\<exists>p. tail = [Recv (Inr p), Get_receiveMore (Inl e)])"
            by auto
          then have "trace s' = trace s @ more_trace (buf # got) @ tail \<and>
            (tail = [Recv (Inl e)] \<or> (\<exists>p. tail = [Recv (Inr p), Get_receiveMore (Inl e)]))"
            by simp
          with Inl show ?thesis by (simp only: sum.case) blast
        next
          case (Inr ps)
          with IH obtain new where n: "new \<noteq> []" "ps = (acc @ [buf]) @ new"
            "trace s' = trace ?s2 @ recv_trace new" by auto
          then have "buf # new \<noteq> [] \<and> ps = acc @ (buf # new) \<and>
            trace s' = trace s @ recv_trace (buf # new)"
            by (simp add: recv_trace_Cons)
          with Inr show ?thesis by (simp only: sum.case) blast
        qed
      qed
    qed
  qed
qed

lemma burst_trace_simps [simp]:
  "burst_trace q [] = []"
  "burst_trace [] ws = []"
  "burst_trace ((p, f) # q) (w # ws) = Send p f None # Get_ioevents (Inr w) # burst_trace q ws"
  by (simp_all add: burst_trace_def)

lemma send_burst_step:
  assumes "flags AND ZMQ_POLLOUT b \<noteq> 0" and "outgoing s = (p, f) # rest"
    and "zmq_send b p f (zmq s) = (None, env)" and "ioevents b env = (Inr w, env')"
  shows "send_burst b flags s =
    send_burst b w (s\<lparr>zmq := env', outgoing := rest,
                      trace := trace s @ [Send p f None, Get_ioevents (Inr w)]\<rparr>)"
  using assms by (subst send_burst.simps) simp

lemma send_burst_returns:
  "send_burst b flags s = (None, flags', s') \<Longrightarrow>
     \<exists>ws. length ws \<le> length (outgoing s) \<and>
          trace s' = trace s @ burst_trace (outgoing s) ws \<and>
          outgoing s' = drop (length ws) (outgoing s) \<and>
          flags' = last (flags # ws) \<and>
          (outgoing s' = [] \<or> flags' AND ZMQ_POLLOUT b = 0) \<and>
          (\<forall>w\<in>set (butlast (flags # ws)). w AND ZMQ_POLLOUT b \<noteq> 0)"
proof (induction b flags s rule: send_burst.induct)
  case (1 b flags s)
  show ?case
  proof (cases "flags AND ZMQ_POLLOUT b \<noteq> 0 \<and> outgoing s \<noteq> []")
    case False
    with "1.prems" have "s' = s" "flags' = flags" by (subst (asm) send_burst.simps, simp)+
    with False show ?thesis by (intro exI [of _ "[]"]) auto
  next
    case True
    then obtain p f rest where q: "outgoing s = (p, f) # rest"
      by (cases "outgoing s") auto
    obtain r1 env where z: "zmq_send b p f (zmq s) = (r1, env)"
      by (cases "zmq_send b p f (zmq s)")
    obtain r2 env' where i: "ioevents b env = (r2, env')" by (cases "ioevents b env")
    from True q z i "1.prems" have r1: "r1 = None"
      by (subst (asm) send_burst.simps) (auto split: option.splits)
    from True q z i "1.prems" r1 obtain w where r2: "r2 = Inr w"
      by (subst (asm) send_burst.simps) (auto split: sum.splits)
    let ?s1 = "s\<lparr>zmq := env', outgoing := rest,
                 trace := trace s @ [Send p f None, Get_ioevents (Inr w)]\<rparr>"
    from True q z i r1 r2 "1.prems" have "send_burst b w ?s1 = (None, flags', s')"
      by (simp add: send_burst_step)
    from "1.IH" [OF True q refl z [symmetric] r1 i [symmetric] r2 this]
    obtain ws where ws: "length ws \<le> length rest"
      "trace s' = trace ?s1 @ burst_trace rest ws"
      "outgoing s' = drop (length ws) rest"
      "flags' = last (w # ws)"
      "outgoing s' = [] \<or> flags' AND ZMQ_POLLOUT b = 0"
      "\<forall>x\<in>set (butlast (w # ws)). x AND ZMQ_POLLOUT b \<noteq> 0"
      by auto
    show ?thesis
    proof (intro exI [of _ "w # ws"] conjI)
      show "length (w # ws) \<le> length (outgoing s)" using ws(1) q by simp
      show "trace s' = trace s @ burst_trace (outgoing s) (w # ws)" using ws(2) q by simp
      show "outgoing s' = drop (length (w # ws)) (outgoing s)" using ws(3) q by simp
      show "flags' = last (flags # w # ws)" using ws(4) by simp
      show "outgoing s' = [] \<or> flags' AND ZMQ_POLLOUT b = 0" by (rule ws(5))
      show "\<forall>x\<in>set (butlast (flags # w # ws)). x AND ZMQ_POLLOUT b \<noteq> 0"
        using ws(6) True by simp
    qed
  qed
qed

lemma send_burst_throws:
  "send_burst b flags s = (Some e, flags', s') \<Longrightarrow>
     \<exists>ws p f tail. length ws < length (outgoing s) \<and>
          trace s' = trace s @ burst_trace (outgoing s) ws @ tail \<and>
          outgoing s ! length ws = (p, f) \<and>
          (tail = [Send p f (Some e)] \<or> tail = [Send p f None, Get_ioevents (Inl e)]) \<and>
          outgoing s' = drop (Suc (length ws)) (outgoing s) \<and>
          flags' = last (flags # ws) \<and>
          (\<forall>w\<in>set (flags # ws). w AND ZMQ_POLLOUT b \<noteq> 0)"
proof (induction b flags s rule: send_burst.induct)
  case (1 b flags s)
  show ?case
  proof (cases "flags AND ZMQ_POLLOUT b \<noteq> 0 \<and> outgoing s \<noteq> []")
    case False
    with "1.prems" show ?thesis by (subst (asm) send_burst.simps) simp
  next
    case True
    then obtain p f rest where q: "outgoing s = (p, f) # rest"
      by (cases "outgoing s") auto
    obtain r1 env where z: "zmq_send b p f (zmq s) = (r1, env)"
      by (cases "zmq_send b p f (zmq s)")
    show ?thesis
    proof (cases r1)
      case (Some e1)
      with True q z "1.prems" have "e1 = e" "flags' = flags"
        "s' = s\<lparr>zmq := env, outgoing := rest, trace := trace s @ [Send p f (Some e)]\<rparr>"
        by (subst (asm) send_burst.simps, simp)+
      with True q show ?thesis
        by (intro exI [of _ "[]"] exI [of _ p] exI [of _ f] exI [of _ "[Send p f (Some e)]"]) simp
    next
      case None
      obtain r2 env' where i: "ioevents b env = (r2, env')" by (cases "ioevents b env")
      show ?thesis
      proof (cases r2)
        case (Inl e2)
        with True q z None i "1.prems" have "e2 = e" "flags' = flags"
          "s' = s\<lparr>zmq := env', outgoing := rest,
                  trace := trace s @ [Send p f None, Get_ioevents (Inl e)]\<rparr>"
          by (subst (asm) send_burst.simps, simp)+
        with True q show ?thesis
          by (intro exI [of _ "[]"] exI [of _ p] exI [of _ f]
                exI [of _ "[Send p f None, Get_ioevents (Inl e)]"]) simp
      next
        case (Inr w)
        let ?s1 = "s\<lparr>zmq := env', outgoing := rest,
                     trace := trace s @ [Send p f None, Get_ioevents (Inr w)]\<rparr>"
        from True q z i None Inr "1.prems" have "send_burst b w ?s1 = (Some e, flags', s')"
          by (simp add: send_burst_step)
        from "1.IH" [OF True q refl z [symmetric] None i [symmetric] Inr this]
        obtain ws p' f' tail where ws: "length ws < length rest"
          "trace s' = trace ?s1 @ burst_trace rest ws @ tail"
          "rest ! length ws = (p', f')"
          "tail = [Send p' f' (Some e)] \<or> tail = [Send p' f' None, Get_ioevents (Inl e)]"
          "outgoing s' = drop (Suc (length ws)) rest"
          "flags' = last (w # ws)"
          "\<forall>x\<in>set (w # ws). x AND ZMQ_POLLOUT b \<noteq> 0"
          by auto
        show ?thesis
        proof (intro exI [of _ "w # ws"] exI [of _ p'] exI [of _ f'] exI [of _ tail] conjI)
          show "length (w # ws) < length (outgoing s)" using ws(1) q by simp
          show "trace s' = trace s @ burst_trace (outgoing s) (w # ws) @ tail"
            using ws(2) q by simp
          show "outgoing s ! length (w # ws) = (p', f')" using ws(3) q by simp
          show "tail = [Send p' f' (Some e)] \<or> tail = [Send p' f' None, Get_ioevents (Inl e)]"
            by (rule ws(4))
          show "outgoing s' = drop (Suc (length (w # ws))) (outgoing s)" using ws(5) q by simp
          show "flags' = last (flags # w # ws)" using ws(6) by simp
          show "\<forall>x\<in>set (flags # w # ws). x AND ZMQ_POLLOUT b \<noteq> 0" using ws(7) True by simp
        qed
      qed
    qed
  qed
qed

subsection \<open>The paths through one iteration, and the calls on them\<close>

lemma iteration_cases [consumes 1, case_names io_throws idle left burst]:
  assumes it: "iteration b F k fl s = Some (st, fl', s')"
  obtains
    (io_throws) e env where "ioevents b (zmq s) = (Inl e, env)" "st = Leave (Raised (Obj e))" "fl' = fl"
      "s' = s\<lparr>zmq := env, trace := trace s @ [Get_ioevents (Inl e)]\<rparr>"
  | (idle) w env where "ioevents b (zmq s) = (Inr w, env)" "masked b (outgoing s) w = 0"
      "st = Leave Done" "fl' = Some 0"
      "s' = s\<lparr>zmq := env, trace := trace s @ [Get_ioevents (Inr w)]\<rparr>"
  | (left) w env x s2 where "ioevents b (zmq s) = (Inr w, env)"
      "masked b (outgoing s) w AND ZMQ_POLLIN b \<noteq> 0"
      "receive b F k (s\<lparr>zmq := env, trace := trace s @ [Get_ioevents (Inr w)]\<rparr>) = Some (x, s2)"
      "x \<noteq> Done" "st = Leave x" "fl' = Some (masked b (outgoing s) w)" "s' = s2"
  | (burst) w env s2 r flags' where "ioevents b (zmq s) = (Inr w, env)"
      "masked b (outgoing s) w \<noteq> 0"
      "(if masked b (outgoing s) w AND ZMQ_POLLIN b \<noteq> 0
        then receive b F k (s\<lparr>zmq := env, trace := trace s @ [Get_ioevents (Inr w)]\<rparr>)
        else Some (Done, s\<lparr>zmq := env, trace := trace s @ [Get_ioevents (Inr w)]\<rparr>)) = Some (Done, s2)"
      "send_burst b (masked b (outgoing s) w) s2 = (r, flags', s')"
      "fl' = Some flags'" "st = (case r of None \<Rightarrow> Continue | Some e \<Rightarrow> Leave (Raised (Obj e)))"
proof -
  obtain r env where io: "ioevents b (zmq s) = (r, env)" by (cases "ioevents b (zmq s)")
  show thesis
  proof (cases r)
    case (Inl e)
    with io it have "st = Leave (Raised (Obj e))" "fl' = fl"
      "s' = s\<lparr>zmq := env, trace := trace s @ [Get_ioevents (Inl e)]\<rparr>"
      by (simp_all add: iteration_def)
    with io Inl show thesis by (intro io_throws) simp_all
  next
    case (Inr w)
    define s1 where "s1 = s\<lparr>zmq := env, trace := trace s @ [Get_ioevents (Inr w)]\<rparr>"
    define flags where "flags = masked b (outgoing s1) w"
    have fe: "flags = masked b (outgoing s) w" by (simp add: flags_def s1_def)
    define rc where "rc = (if flags AND ZMQ_POLLIN b \<noteq> 0 then receive b F k s1 else Some (Done, s1))"
    have "iteration b F k fl s = (if flags = 0 then Some (Leave Done, Some flags, s1)
             else
               (case rc of
                  None \<Rightarrow> None
                | Some (Raised e, s2) \<Rightarrow> Some (Leave (Raised e), Some flags, s2)
                | Some (Returned, s2) \<Rightarrow> Some (Leave Returned, Some flags, s2)
                | Some (Done, s2) \<Rightarrow>
                    (case send_burst b flags s2 of
                       (Some e, flags', s3) \<Rightarrow> Some (Leave (Raised (Obj e)), Some flags', s3)
                     | (None, flags', s3) \<Rightarrow> Some (Continue, Some flags', s3))))"
      unfolding iteration_def io Inr rc_def flags_def s1_def Let_def by simp
    with it have L: "(if flags = 0 then Some (Leave Done, Some flags, s1)
             else
               (case rc of
                  None \<Rightarrow> None
                | Some (Raised e, s2) \<Rightarrow> Some (Leave (Raised e), Some flags, s2)
                | Some (Returned, s2) \<Rightarrow> Some (Leave Returned, Some flags, s2)
                | Some (Done, s2) \<Rightarrow>
                    (case send_burst b flags s2 of
                       (Some e, flags', s3) \<Rightarrow> Some (Leave (Raised (Obj e)), Some flags', s3)
                     | (None, flags', s3) \<Rightarrow> Some (Continue, Some flags', s3)))) = Some (st, fl', s')"
      by simp
    show thesis
    proof (cases "flags = 0")
      case True
      with L have "st = Leave Done" "fl' = Some 0" "s' = s1" by simp_all
      with io Inr True show thesis
        by (intro idle [of w env]) (simp_all add: fe s1_def)
    next
      case False
      with L have L': "(case rc of
                  None \<Rightarrow> None
                | Some (Raised e, s2) \<Rightarrow> Some (Leave (Raised e), Some flags, s2)
                | Some (Returned, s2) \<Rightarrow> Some (Leave Returned, Some flags, s2)
                | Some (Done, s2) \<Rightarrow>
                    (case send_burst b flags s2 of
                       (Some e, flags', s3) \<Rightarrow> Some (Leave (Raised (Obj e)), Some flags', s3)
                     | (None, flags', s3) \<Rightarrow> Some (Continue, Some flags', s3))) = Some (st, fl', s')"
        by simp
      then obtain y s2 where rc: "rc = Some (y, s2)" by (cases rc) auto
      show thesis
      proof (cases "y = Done")
        case True
        obtain r3 flags' s3 where sb: "send_burst b flags s2 = (r3, flags', s3)"
          by (cases "send_burst b flags s2")
        have L3: "(case r3 of None \<Rightarrow> Some (Continue, Some flags', s3)
                   | Some e \<Rightarrow> Some (Leave (Raised (Obj e)), Some flags', s3)) = Some (st, fl', s')"
          using L' rc True sb by (cases r3) simp_all
        have e: "s' = s3 \<and> fl' = Some flags' \<and>
                 st = (case r3 of None \<Rightarrow> Continue | Some e \<Rightarrow> Leave (Raised (Obj e)))"
          using L3 by (cases r3) auto
        show thesis
        proof (rule burst [of w env s2 r3 flags'])
          show "ioevents b (zmq s) = (Inr w, env)" using io Inr by simp
          show "masked b (outgoing s) w \<noteq> 0" using False by (simp add: fe)
          show "(if masked b (outgoing s) w AND ZMQ_POLLIN b \<noteq> 0
                 then receive b F k (s\<lparr>zmq := env, trace := trace s @ [Get_ioevents (Inr w)]\<rparr>)
                 else Some (Done, s\<lparr>zmq := env, trace := trace s @ [Get_ioevents (Inr w)]\<rparr>)) =
                Some (Done, s2)"
            using rc True unfolding rc_def fe s1_def by simp
          show "send_burst b (masked b (outgoing s) w) s2 = (r3, flags', s')"
            using sb e by (simp add: fe)
          show "fl' = Some flags'" using e by simp
          show "st = (case r3 of None \<Rightarrow> Continue | Some e \<Rightarrow> Leave (Raised (Obj e)))" using e by simp
        qed
      next
        case nd: False
        have e: "st = Leave y \<and> fl' = Some flags \<and> s' = s2"
          using L' rc nd by (cases y) auto
        have rd: "flags AND ZMQ_POLLIN b \<noteq> 0"
        proof (rule ccontr)
          assume "\<not> flags AND ZMQ_POLLIN b \<noteq> 0"
          with rc have "y = Done" by (simp add: rc_def)
          with nd show False by simp
        qed
        show thesis
        proof (rule left [of w env y s2])
          show "ioevents b (zmq s) = (Inr w, env)" using io Inr by simp
          show "masked b (outgoing s) w AND ZMQ_POLLIN b \<noteq> 0" using rd by (simp add: fe)
          show "receive b F k (s\<lparr>zmq := env, trace := trace s @ [Get_ioevents (Inr w)]\<rparr>) = Some (y, s2)"
            using rc rd unfolding rc_def s1_def by simp
          show "y \<noteq> Done" by (rule nd)
          show "st = Leave y" using e by simp
          show "fl' = Some (masked b (outgoing s) w)" using e by (simp add: fe)
          show "s' = s2" using e by simp
        qed
      qed
    qed
  qed
qed

lemma ends_thrown_snoc [simp]:
  "ends_thrown e (Y @ [c]) \<longleftrightarrow> thrown_by c = [e] \<and> throws Y = []"
  by (simp add: ends_thrown_def)

lemma ends_thrown_single [simp]: "ends_thrown e [c] \<longleftrightarrow> thrown_by c = [e]"
  by (simp add: ends_thrown_def)

lemma ends_thrown_prepend:
  "throws Y = [] \<Longrightarrow> ends_thrown e X \<Longrightarrow> ends_thrown e (Y @ X)"
  by (auto simp: ends_thrown_def butlast_append)

lemma ends_thrown_Cons:
  "thrown_by c = [] \<Longrightarrow> ends_thrown e X \<Longrightarrow> ends_thrown e (c # X)"
  using ends_thrown_prepend [of "[c]" e X] by simp

lemma burst_trace_quiet [simp]:
  "emitted (burst_trace q ws) = []" "throws (burst_trace q ws) = []"
proof -
  have "emitted (burst_trace q ws) = [] \<and> throws (burst_trace q ws) = []"
  proof (induction q arbitrary: ws)
    case Nil
    then show ?case by simp
  next
    case (Cons x q)
    obtain p f where x: "x = (p, f)" by (cases x)
    show ?case using Cons x by (cases ws) simp_all
  qed
  then show "emitted (burst_trace q ws) = []" "throws (burst_trace q ws) = []" by simp_all
qed

lemma receive_shape:
  assumes G: "\<And>s. inFlush s \<Longrightarrow> F s = Some (None, s)"
    and g: "inFlush s" and rc: "receive b F k s = Some (x, s')"
  shows "(\<exists>ps. ps \<noteq> [] \<and> trace s' = trace s @ recv_trace ps @ [Emit (Message ps)]) \<or>
         (\<exists>e got tail. x = Raised (Obj e) \<and> trace s' = trace s @ more_trace got @ tail \<and>
            (tail = [Recv (Inl e)] \<or> (\<exists>p. tail = [Recv (Inr p), Get_receiveMore (Inl e)])))"
proof -
  from rc obtain y s1 where rp: "recv_parts b k [] s = Some (y, s1)"
    by (cases "recv_parts b k [] s") (auto simp: receive_def)
  from recv_parts_frame [OF rp] g have g1: "inFlush s1" by simp
  note sh = recv_parts_calls [OF rp]
  show ?thesis
  proof (cases y)
    case (Inl e)
    with rc rp have "x = Raised (Obj e)" "s' = s1" by (simp_all add: receive_def)
    with sh Inl show ?thesis by auto
  next
    case (Inr ps)
    with sh obtain new where n: "new \<noteq> []" "ps = new" "trace s1 = trace s @ recv_trace new"
      by auto
    from rc rp Inr have "trace s' = trace s1 @ [Emit (Message ps)]"
      by (auto simp: receive_def emit_guarded [OF G g1] split: option.splits if_splits)
    with n show ?thesis by auto
  qed
qed

lemma receive_calls:
  assumes G: "\<And>s. inFlush s \<Longrightarrow> F s = Some (None, s)"
    and g: "inFlush s" and rc: "receive b F k s = Some (x, s')"
  shows "\<exists>X. trace s' = trace s @ X \<and> sends X = [] \<and>
           (throws X = [] \<or> (\<exists>e. x = Raised (Obj e) \<and> ends_thrown e X))"
proof -
  have "(\<exists>ps. ps \<noteq> [] \<and> trace s' = trace s @ recv_trace ps @ [Emit (Message ps)]) \<or>
         (\<exists>e got tail. x = Raised (Obj e) \<and> trace s' = trace s @ more_trace got @ tail \<and>
            (tail = [Recv (Inl e)] \<or> (\<exists>p. tail = [Recv (Inr p), Get_receiveMore (Inl e)])))"
    using receive_shape [OF G g rc] by simp
  then consider
    (whole) ps where "trace s' = trace s @ recv_trace ps @ [Emit (Message ps)]"
  | (cut) e got tail where "x = Raised (Obj e)" "trace s' = trace s @ more_trace got @ tail"
      "tail = [Recv (Inl e)] \<or> (\<exists>p. tail = [Recv (Inr p), Get_receiveMore (Inl e)])"
    by blast
  then show ?thesis
  proof cases
    case whole
    then show ?thesis by (intro exI [of _ "recv_trace ps @ [Emit (Message ps)]"]) simp
  next
    case cut
    from cut(3) have "sends tail = [] \<and> ends_thrown e tail"
      by (auto simp: ends_thrown_def)
    with cut(1,2) show ?thesis
      by (intro exI [of _ "more_trace got @ tail"]) (simp add: ends_thrown_prepend)
  qed
qed

lemma send_burst_calls:
  assumes "send_burst b flags s = (r, flags', s')"
  shows "\<exists>X. trace s' = trace s @ X \<and> emitted X = [] \<and>
           (case r of None \<Rightarrow> throws X = [] | Some e \<Rightarrow> ends_thrown e X)"
proof (cases r)
  case None
  with send_burst_returns [of b flags s flags' s'] assms
  obtain ws where "trace s' = trace s @ burst_trace (outgoing s) ws" by auto
  with None show ?thesis by (intro exI [of _ "burst_trace (outgoing s) ws"]) simp
next
  case (Some e)
  with send_burst_throws [of b flags s e flags' s'] assms
  obtain ws p f tail where a: "trace s' = trace s @ burst_trace (outgoing s) ws @ tail"
    "tail = [Send p f (Some e)] \<or> tail = [Send p f None, Get_ioevents (Inl e)]" by auto
  from a(2) have "emitted tail = [] \<and> ends_thrown e tail" by (auto simp: ends_thrown_def)
  with a(1) Some show ?thesis
    by (intro exI [of _ "burst_trace (outgoing s) ws @ tail"]) (simp add: ends_thrown_prepend)
qed

lemma iteration_calls:
  assumes G: "\<And>s. inFlush s \<Longrightarrow> F s = Some (None, s)"
    and g: "inFlush s" and it: "iteration b F k fl s = Some (st, fl', s')"
  shows "\<exists>X. trace s' = trace s @ X \<and>
           (throws X = [] \<or> (\<exists>e. st = Leave (Raised (Obj e)) \<and> ends_thrown e X))"
  using it
proof (cases rule: iteration_cases)
  case (io_throws e env)
  then show ?thesis by (intro exI [of _ "[Get_ioevents (Inl e)]"]) simp
next
  case (idle w env)
  then show ?thesis by (intro exI [of _ "[Get_ioevents (Inr w)]"]) simp
next
  case (left w env x s2)
  let ?s1 = "s\<lparr>zmq := env, trace := trace s @ [Get_ioevents (Inr w)]\<rparr>"
  have "inFlush ?s1" using g by simp
  from receive_calls [OF G this left(3)] obtain X where
    X: "trace s2 = trace ?s1 @ X" "throws X = [] \<or> (\<exists>e. x = Raised (Obj e) \<and> ends_thrown e X)"
    by auto
  show ?thesis
  proof (intro exI [of _ "Get_ioevents (Inr w) # X"] conjI)
    show "trace s' = trace s @ Get_ioevents (Inr w) # X" using X(1) left by simp
    show "throws (Get_ioevents (Inr w) # X) = [] \<or>
          (\<exists>e. st = Leave (Raised (Obj e)) \<and> ends_thrown e (Get_ioevents (Inr w) # X))"
      using X(2) left by (auto simp: ends_thrown_Cons)
  qed
next
  case (burst w env s2 r flags')
  let ?s1 = "s\<lparr>zmq := env, trace := trace s @ [Get_ioevents (Inr w)]\<rparr>"
  have g1: "inFlush ?s1" using g by simp
  have "\<exists>X. trace s2 = trace ?s1 @ X \<and> throws X = []"
  proof (cases "masked b (outgoing s) w AND ZMQ_POLLIN b \<noteq> 0")
    case True
    with burst(3) have "receive b F k ?s1 = Some (Done, s2)" by simp
    from receive_calls [OF G g1 this] show ?thesis by auto
  next
    case False
    with burst(3) have "s2 = ?s1" by simp
    then show ?thesis by simp
  qed
  then obtain X where X: "trace s2 = trace ?s1 @ X" "throws X = []" by auto
  from send_burst_calls [OF burst(4)] obtain Z where
    Z: "trace s' = trace s2 @ Z" "case r of None \<Rightarrow> throws Z = [] | Some e \<Rightarrow> ends_thrown e Z"
    by auto
  show ?thesis
  proof (intro exI [of _ "Get_ioevents (Inr w) # X @ Z"] conjI)
    show "trace s' = trace s @ Get_ioevents (Inr w) # X @ Z" using X(1) Z(1) by simp
    show "throws (Get_ioevents (Inr w) # X @ Z) = [] \<or>
          (\<exists>e. st = Leave (Raised (Obj e)) \<and> ends_thrown e (Get_ioevents (Inr w) # X @ Z))"
    proof (cases r)
      case None
      with Z(2) X(2) show ?thesis by simp
    next
      case (Some e)
      with Z(2) have "ends_thrown e Z" by simp
      with X(2) have "ends_thrown e (Get_ioevents (Inr w) # X @ Z)"
        by (simp add: ends_thrown_Cons ends_thrown_prepend)
      with Some burst(6) show ?thesis by simp
    qed
  qed
qed

lemma loop_calls:
  assumes G: "\<And>s. inFlush s \<Longrightarrow> F s = Some (None, s)"
  shows "inFlush s \<Longrightarrow> loop b F n fl s = Some (x, fl', s') \<Longrightarrow>
         \<exists>X. trace s' = trace s @ X \<and>
           (throws X = [] \<or> (\<exists>e. x = Raised (Obj e) \<and> ends_thrown e X))"
proof (induction n arbitrary: fl s)
  case 0
  then show ?case by simp
next
  case (Suc n)
  from Suc.prems(2) obtain st fl1 s1 where it: "iteration b F n fl s = Some (st, fl1, s1)"
    by (cases "iteration b F n fl s") auto
  from iteration_calls [OF G Suc.prems(1) it] obtain X where
    X: "trace s1 = trace s @ X" "throws X = [] \<or> (\<exists>e. st = Leave (Raised (Obj e)) \<and> ends_thrown e X)"
    by auto
  show ?case
  proof (cases st)
    case (Leave y)
    with it Suc.prems(2) have "x = y" "s' = s1" by simp_all
    with X Leave show ?thesis by (intro exI [of _ X]) auto
  next
    case Continue
    with it Suc.prems(2) have L: "loop b F n fl1 s1 = Some (x, fl', s')" by simp
    from iteration_frame [OF G Suc.prems(1) it] Continue have "inFlush s1" by simp
    from Suc.IH [OF this L] obtain Z where
      Z: "trace s' = trace s1 @ Z" "throws Z = [] \<or> (\<exists>e. x = Raised (Obj e) \<and> ends_thrown e Z)"
      by auto
    from X(2) Continue have XQ: "throws X = []" by auto
    show ?thesis
    proof (intro exI [of _ "X @ Z"] conjI)
      show "trace s' = trace s @ X @ Z" using X(1) Z(1) by simp
      show "throws (X @ Z) = [] \<or> (\<exists>e. x = Raised (Obj e) \<and> ends_thrown e (X @ Z))"
        using Z(2) XQ by (auto simp: ends_thrown_prepend)
    qed
  qed
qed

subsection \<open>The guard\<close>

lemma report_guarded:
  assumes G: "\<And>s. inFlush s \<Longrightarrow> F s = Some (None, s)"
    and g: "inFlush s" and R: "listeners b (Error v) (zmq s) = (r, env)"
  shows "report b F v s =
    Some (thrown r,
      s\<lparr>zmq := env, trace := trace s @ [Emit (Error v)],
        outgoing := outgoing s @ enqueued b (calls r), inFlush := False\<rparr>)"
  using g R by (cases "thrown r") (simp_all add: report_def emit_guarded [OF G g])

lemma report_cong:
  assumes F: "\<And>s. inFlush s \<Longrightarrow> F s = Some (None, s)"
    and G: "\<And>s. inFlush s \<Longrightarrow> G s = Some (None, s)"
    and g: "inFlush s"
  shows "report b F v s = report b G v s"
  by (simp add: report_def emit_guarded [OF F g] emit_guarded [OF G g])

lemma flush_body_cong:
  assumes F: "\<And>s. inFlush s \<Longrightarrow> F s = Some (None, s)"
    and G: "\<And>s. inFlush s \<Longrightarrow> G s = Some (None, s)"
  shows "flush_body b F n s = flush_body b G n s"
proof (cases "inFlush s")
  case True
  then show ?thesis by (simp add: flush_body_def)
next
  case False
  have g: "inFlush (s\<lparr>inFlush := True\<rparr>)" by simp
  note eq = loop_cong [OF F G g, of b n None]
  show ?thesis
  proof (cases "loop b G n None (s\<lparr>inFlush := True\<rparr>)")
    case None
    with eq False show ?thesis by (simp add: flush_body_def)
  next
    case (Some p)
    obtain x fl s1 where p: "p = (x, fl, s1)" by (cases p)
    note fr = loop_frame [OF G g Some [unfolded p]]
    show ?thesis
    proof (cases x)
      case Done
      with eq Some p False show ?thesis by (simp add: flush_body_def)
    next
      case Returned
      with eq Some p False show ?thesis by (simp add: flush_body_def)
    next
      case (Raised v)
      with fr have g1: "inFlush s1" by simp
      from eq Some p False Raised show ?thesis
        by (cases v) (simp_all add: flush_body_def report_cong [OF F G g1])
    qed
  qed
qed

lemma flush_unfold:
  "flush b (Suc n) s =
     flush_body b (\<lambda>s'. if inFlush s' then Some (None, s') else None) (Suc n) s"
  by (simp add: flush_body_cong [of "flush b n" "\<lambda>s'. if inFlush s' then Some (None, s') else None"]
        flush_when_guarded)

text \<open>The ways out of a call of \<open>_flush\<close> that found the guard clear.\<close>

lemma flush_exits [consumes 2, case_names finished returned nullish reported]:
  assumes c: "\<not> inFlush s" and f: "flush b (Suc m) s = Some (r, s')"
  obtains
    (finished) fl s1 where
      "loop b (flush b m) (Suc m) None (s\<lparr>inFlush := True\<rparr>) = Some (Done, fl, s1)"
      "r = None" "s' = s1\<lparr>inFlush := False\<rparr>"
  | (returned) fl s1 where
      "loop b (flush b m) (Suc m) None (s\<lparr>inFlush := True\<rparr>) = Some (Returned, fl, s1)"
      "r = None" "s' = s1"
  | (nullish) fl s1 where
      "loop b (flush b m) (Suc m) None (s\<lparr>inFlush := True\<rparr>) = Some (Raised Nullish, fl, s1)"
      "r = Some (Obj type_error)" "s' = s1"
  | (reported) v fl s1 rr env where
      "loop b (flush b m) (Suc m) None (s\<lparr>inFlush := True\<rparr>) = Some (Raised v, fl, s1)"
      "v \<noteq> Nullish"
      "listeners b (Error (annotated fl (util_inspect b (outgoing s1)) v)) (zmq s1) = (rr, env)"
      "r = thrown rr"
      "s' = s1\<lparr>zmq := env,
               trace := trace s1 @ [Emit (Error (annotated fl (util_inspect b (outgoing s1)) v))],
               outgoing := outgoing s1 @ enqueued b (calls rr), inFlush := False\<rparr>"
proof -
  have G: "\<And>s. inFlush s \<Longrightarrow> flush b m s = Some (None, s)" by (rule flush_when_guarded)
  have g: "inFlush (s\<lparr>inFlush := True\<rparr>)" by simp
  from c f obtain x fl s1 where
    L: "loop b (flush b m) (Suc m) None (s\<lparr>inFlush := True\<rparr>) = Some (x, fl, s1)"
    by (cases "loop b (flush b m) (Suc m) None (s\<lparr>inFlush := True\<rparr>)") (auto simp: flush_body_def)
  note fr = loop_frame [OF G g L]
  show thesis
  proof (cases x)
    case Done
    with c f L have "r = None" "s' = s1\<lparr>inFlush := False\<rparr>" by (simp_all add: flush_body_def)
    with L Done show thesis by (intro finished [of fl s1]) simp_all
  next
    case Returned
    with c f L have "r = None" "s' = s1" by (simp_all add: flush_body_def)
    with L Returned show thesis by (intro returned [of fl s1]) simp_all
  next
    case (Raised v)
    with fr have g1: "inFlush s1" by simp
    show thesis
    proof (cases "v = Nullish")
      case True
      with c f L Raised have "r = Some (Obj type_error)" "s' = s1" by (simp_all add: flush_body_def)
      with L Raised True show thesis by (intro nullish [of fl s1]) simp_all
    next
      case False
      let ?v = "annotated fl (util_inspect b (outgoing s1)) v"
      obtain rr env where R: "listeners b (Error ?v) (zmq s1) = (rr, env)"
        by (cases "listeners b (Error ?v) (zmq s1)")
      have "flush b (Suc m) s = report b (flush b m) ?v s1"
        using c L Raised False by (cases v) (simp_all add: flush_body_def annotated_def)
      with report_guarded [OF G g1 R] f
      have "r = thrown rr"
        "s' = s1\<lparr>zmq := env, trace := trace s1 @ [Emit (Error ?v)],
                 outgoing := outgoing s1 @ enqueued b (calls rr), inFlush := False\<rparr>"
        by simp_all
      with L Raised False R show thesis by (intro reported [of v fl s1 rr env]) simp_all
    qed
  qed
qed

text \<open>A call of \<open>_flush\<close> that found the guard clear leaves it set in one case
  only: the loop was left by a throw of \<open>null\<close> or \<open>undefined\<close>.\<close>

lemma guard_after_flush:
  assumes c: "\<not> inFlush s" and f: "flush b (Suc m) s = Some (r, s')"
  shows "inFlush s' \<longleftrightarrow>
    (\<exists>fl s1. loop b (flush b m) (Suc m) None (s\<lparr>inFlush := True\<rparr>) = Some (Raised Nullish, fl, s1))"
proof -
  have G: "\<And>s. inFlush s \<Longrightarrow> flush b m s = Some (None, s)" by (rule flush_when_guarded)
  have g: "inFlush (s\<lparr>inFlush := True\<rparr>)" by simp
  from c f show ?thesis
  proof (cases rule: flush_exits)
    case (finished fl s1)
    then show ?thesis by simp
  next
    case (returned fl s1)
    from loop_frame [OF G g returned(1)] returned(1,3) show ?thesis by simp
  next
    case (nullish fl s1)
    from loop_frame [OF G g nullish(1)] nullish(1,3) show ?thesis by simp
  next
    case (reported v fl s1 rr env)
    then show ?thesis by simp
  qed
qed

text \<open>
  C1. The guard is not cleared on every path out of \<open>_flush\<close>. A listener of
  \<open>message\<close> that throws \<open>null\<close> (or \<open>undefined\<close>) takes the loop to the catch
  block with \<open>e\<close> being \<open>null\<close>; the assignment \<open>e.flags = flags\<close> then throws a
  \<open>TypeError\<close>, and it stands before the inner \<open>try\<close>, so \<open>_flush\<close> is left with the
  guard still set. Here the handle is readable with one message of one part. The call
  throws the \<open>TypeError\<close> and leaves the guard set, and every later call of \<open>_flush\<close>,
  here one with another message waiting, returns at once without a call of the handle.
  The sibling path does clear the guard: with a listener that throws an object, which the
  listener of \<open>error\<close> throws again, \<open>_flush\<close> throws with the guard clear.
\<close>

theorem null_throw_leaves_guard_set:
  "\<not> inFlush (fresh (quiet\<lparr>readiness := [1], inbound := [(ping, False)],
                          message_throws := Some Nullish\<rparr>)) \<and>
   flush stub (Suc (Suc 0))
     (fresh (quiet\<lparr>readiness := [1], inbound := [(ping, False)],
                    message_throws := Some Nullish\<rparr>)) =
     Some (Some (Obj type_error),
       (fresh (quiet\<lparr>message_throws := Some Nullish\<rparr>))
         \<lparr>inFlush := True,
          trace := [Get_ioevents (Inr 1), Recv (Inr ping), Get_receiveMore (Inr False),
                    Emit (Message [ping])]\<rparr>) \<and>
   flush stub (Suc (Suc 0))
     ((fresh (quiet\<lparr>readiness := [1], inbound := [(pong, False)],
                     message_throws := Some Nullish\<rparr>))
        \<lparr>inFlush := True,
         trace := [Get_ioevents (Inr 1), Recv (Inr ping), Get_receiveMore (Inr False),
                   Emit (Message [ping])]\<rparr>) =
     Some (None,
       (fresh (quiet\<lparr>readiness := [1], inbound := [(pong, False)],
                      message_throws := Some Nullish\<rparr>))
         \<lparr>inFlush := True,
          trace := [Get_ioevents (Inr 1), Recv (Inr ping), Get_receiveMore (Inr False),
                    Emit (Message [ping])]\<rparr>) \<and>
   flush stub (Suc (Suc 0))
     (fresh (quiet\<lparr>readiness := [1], inbound := [(ping, False)], rethrow := True,
                    message_throws := Some (Obj (failure ''listener''))\<rparr>)) =
     Some (Some (Obj \<lparr>message = ''listener'', exn_flags = Some 1, exn_outgoing = Some []\<rparr>),
       (fresh (quiet\<lparr>rethrow := True, message_throws := Some (Obj (failure ''listener''))\<rparr>))
         \<lparr>trace := [Get_ioevents (Inr 1), Recv (Inr ping), Get_receiveMore (Inr False),
                    Emit (Message [ping]),
                    Emit (Error (Obj \<lparr>message = ''listener'', exn_flags = Some 1,
                                      exn_outgoing = Some []\<rparr>))]\<rparr>)"
  by (simp add: stub_def fresh_def quiet_def failure_def flush_body_def report_def iteration_def
        receive_def emit_def masked_def Let_def)

subsection \<open>send\<close>

text \<open>
  C4. A call \<open>send(p1, ..., pN)\<close> with at least one argument builds exactly \<open>N\<close>
  entries, one per argument and in the order of the arguments, with
  \<open>zmq.ZMQ_SNDMORE\<close> as the flags of every entry but the last and 0 as the flags of
  the last; it appends them as one block to the end of the queue and then calls
  \<open>_flush\<close> once, and what that call does is what \<open>send\<close> does before it returns.
\<close>

theorem send_enqueues:
  assumes "arguments \<noteq> []"
  shows "build_parts b arguments 0 [] =
           map (\<lambda>p. (to_buffer b p, ZMQ_SNDMORE b)) (butlast arguments) @
           [(to_buffer b (last arguments), 0)] \<and>
         length (build_parts b arguments 0 []) = length arguments \<and>
         send b (flush b n) arguments s =
           flush b n (s\<lparr>outgoing := outgoing s @ build_parts b arguments 0 []\<rparr>)"
  using assms by (simp add: send_def build_parts_spec spec_entries_def)

theorem send_enqueues_witness:
  "[Text ''hi'', Buffer pong] \<noteq> [] \<and>
   build_parts stub [Text ''hi'', Buffer pong] 0 [] = [([104, 105], 2), (pong, 0)] \<and>
   length (build_parts stub [Text ''hi'', Buffer pong] 0 []) = 2 \<and>
   send stub (flush stub (Suc 0)) [Text ''hi'', Buffer pong] (fresh quiet) =
     Some (None, (fresh quiet)\<lparr>outgoing := [([104, 105], 2), (pong, 0)],
                                 trace := [Get_ioevents (Inr 0)]\<rparr>)"
  using send_enqueues [of "[Text ''hi'', Buffer pong]" stub "Suc 0" "fresh quiet"]
  by (simp add: stub_def fresh_def quiet_def flush_body_def iteration_def to_buffer_def
        masked_def Let_def)

subsection \<open>An empty queue\<close>

lemma masked_empty: "masked b [] w AND ZMQ_POLLOUT b = 0"
  by (simp add: masked_def bit_eq_iff bit_and_iff bit_not_iff) 

lemma send_burst_idle: "flags AND ZMQ_POLLOUT b = 0 \<Longrightarrow> send_burst b flags s = (None, flags, s)"
  by (subst send_burst.simps) simp

lemma iteration_empty_queue:
  assumes G: "\<And>s. inFlush s \<Longrightarrow> F s = Some (None, s)"
    and g: "inFlush s" and q: "outgoing s = []"
    and it: "iteration b F k fl s = Some (st, fl', s')"
  shows "sends (trace s') = sends (trace s)"
proof -
  obtain r env where io: "ioevents b (zmq s) = (r, env)" by (cases "ioevents b (zmq s)")
  show ?thesis
  proof (cases r)
    case (Inl e)
    with io it show ?thesis by (auto simp: iteration_def)
  next
    case (Inr w)
    define s1 where "s1 = s\<lparr>zmq := env, trace := trace s @ [Get_ioevents (Inr w)]\<rparr>"
    define flags where "flags = masked b [] w"
    have s1: "inFlush s1" "sends (trace s1) = sends (trace s)"
      using g by (simp_all add: s1_def)
    have idle: "send_burst b flags s2 = (None, flags, s2)" for s2
      unfolding flags_def by (rule send_burst_idle [OF masked_empty])
    define rc where "rc = (if flags AND ZMQ_POLLIN b \<noteq> 0 then receive b F k s1 else Some (Done, s1))"
    have "iteration b F k fl s = (if flags = 0 then Some (Leave Done, Some flags, s1)
             else
               (case rc of
                  None \<Rightarrow> None
                | Some (Raised e, s2) \<Rightarrow> Some (Leave (Raised e), Some flags, s2)
                | Some (Returned, s2) \<Rightarrow> Some (Leave Returned, Some flags, s2)
                | Some (Done, s2) \<Rightarrow> Some (Continue, Some flags, s2)))"
      unfolding iteration_def io Inr rc_def flags_def s1_def Let_def
      using q idle [unfolded flags_def] by (simp split: option.splits exit.splits)
    with it have L: "(if flags = 0 then Some (Leave Done, Some flags, s1)
             else
               (case rc of
                  None \<Rightarrow> None
                | Some (Raised e, s2) \<Rightarrow> Some (Leave (Raised e), Some flags, s2)
                | Some (Returned, s2) \<Rightarrow> Some (Leave Returned, Some flags, s2)
                | Some (Done, s2) \<Rightarrow> Some (Continue, Some flags, s2))) = Some (st, fl', s')"
      by simp
    show ?thesis
    proof (cases "flags = 0")
      case True
      with L s1 show ?thesis by simp
    next
      case False
      with L obtain y s2 where rc: "rc = Some (y, s2)" by (cases rc) auto
      have "s' = s2" using L False rc by (cases y) simp_all
      moreover have "sends (trace s2) = sends (trace s1)"
      proof (cases "flags AND ZMQ_POLLIN b \<noteq> 0")
        case True
        with rc have "receive b F k s1 = Some (y, s2)" by (simp add: rc_def)
        from receive_frame [OF G s1(1) this] show ?thesis by simp
      next
        case False
        with rc show ?thesis by (simp add: rc_def)
      qed
      ultimately show ?thesis using s1 by simp
    qed
  qed
qed

text \<open>
  C6. When the queue is empty the writable bit is cleared in the local copy of the
  readiness bitmask, whatever the handle reported. An iteration that starts with an empty
  queue therefore makes no call of the handle's \<open>send\<close>, also when a listener fills the
  queue during it. An activation that starts with an empty queue and a readiness with no
  bit but the writable ones reads the readiness once, makes no call of \<open>send\<close> and
  returns: the loop ends in its first iteration.
\<close>

theorem empty_queue_masks_writable:
  "masked b [] w AND ZMQ_POLLOUT b = 0 \<and>
   (inFlush s \<and> outgoing s = [] \<and> iteration b (flush b n) k fl s = Some (st, fl', s')
      \<longrightarrow> sends (trace s') = sends (trace s)) \<and>
   (\<not> inFlush s \<and> outgoing s = [] \<and> ioevents b (zmq s) = (Inr w, env) \<and>
    w AND NOT (ZMQ_POLLOUT b) = 0
      \<longrightarrow> flush b (Suc n) s =
            Some (None, s\<lparr>zmq := env, trace := trace s @ [Get_ioevents (Inr w)]\<rparr>))"
proof (intro conjI impI)
  show "masked b [] w AND ZMQ_POLLOUT b = 0" by (rule masked_empty)
next
  assume "inFlush s \<and> outgoing s = [] \<and> iteration b (flush b n) k fl s = Some (st, fl', s')"
  then show "sends (trace s') = sends (trace s)"
    using iteration_empty_queue [of "flush b n" s b k fl st fl' s'] by (simp add: flush_when_guarded)
next
  assume a: "\<not> inFlush s \<and> outgoing s = [] \<and> ioevents b (zmq s) = (Inr w, env) \<and>
    w AND NOT (ZMQ_POLLOUT b) = 0"
  then have "s\<lparr>inFlush := False\<rparr> = s" by simp
  with a show "flush b (Suc n) s =
            Some (None, s\<lparr>zmq := env, trace := trace s @ [Get_ioevents (Inr w)]\<rparr>)"
    by (simp add: flush_body_def iteration_def masked_def)
qed

theorem empty_queue_masks_writable_witness:
  "inFlush ((fresh (quiet\<lparr>readiness := [1], inbound := [(ping, False)],
                          replies := [[Buffer pong]]\<rparr>))\<lparr>inFlush := True\<rparr>) \<and>
   iteration stub (flush stub 0) (Suc 0) None
     ((fresh (quiet\<lparr>readiness := [1], inbound := [(ping, False)],
                     replies := [[Buffer pong]]\<rparr>))\<lparr>inFlush := True\<rparr>) =
     Some (Continue, Some 1,
       (fresh (quiet\<lparr>replies := [[Buffer pong]]\<rparr>))
         \<lparr>inFlush := True, outgoing := [(pong, 0)],
          trace := [Get_ioevents (Inr 1), Recv (Inr ping), Get_receiveMore (Inr False),
                    Emit (Message [ping])]\<rparr>) \<and>
   sends [Get_ioevents (Inr 1), Recv (Inr ping), Get_receiveMore (Inr False),
          Emit (Message [ping])] = [] \<and>
   \<not> inFlush (fresh (quiet\<lparr>readiness := [2]\<rparr>)) \<and>
   ioevents stub (zmq (fresh (quiet\<lparr>readiness := [2]\<rparr>))) = (Inr 2, quiet) \<and>
   (2 :: 32 word) AND NOT (ZMQ_POLLOUT stub) = 0 \<and>
   flush stub (Suc 0) (fresh (quiet\<lparr>readiness := [2]\<rparr>)) =
     Some (None, (fresh quiet)\<lparr>trace := [Get_ioevents (Inr 2)]\<rparr>)"
  using empty_queue_masks_writable
      [of stub 2 "(fresh (quiet\<lparr>readiness := [1], inbound := [(ping, False)],
                                  replies := [[Buffer pong]]\<rparr>))\<lparr>inFlush := True\<rparr>"
          0 "Suc 0" None Continue "Some 1"
          "(fresh (quiet\<lparr>replies := [[Buffer pong]]\<rparr>))
             \<lparr>inFlush := True, outgoing := [(pong, 0)],
              trace := [Get_ioevents (Inr 1), Recv (Inr ping), Get_receiveMore (Inr False),
                        Emit (Message [ping])]\<rparr>"]
    empty_queue_masks_writable
      [of stub 2 "fresh (quiet\<lparr>readiness := [2]\<rparr>)" 0 0 None Continue None
          "fresh quiet" quiet]
  by (simp add: stub_def fresh_def quiet_def flush_body_def iteration_def receive_def emit_def
        send_def masked_def Let_def send_burst.simps build_parts.simps)

subsection \<open>Receiving\<close>














subsection \<open>The catch block\<close>

lemma flush_reported:
  assumes c: "\<not> inFlush s"
    and L: "loop b (flush b n) (Suc n) None (s\<lparr>inFlush := True\<rparr>) = Some (Raised v, fl, s1)"
    and nn: "v \<noteq> Nullish"
    and R: "listeners b (Error (annotated fl (util_inspect b (outgoing s1)) v)) (zmq s1) = (r, env)"
  shows "flush b (Suc n) s =
    Some (thrown r,
      s1\<lparr>zmq := env,
         trace := trace s1 @ [Emit (Error (annotated fl (util_inspect b (outgoing s1)) v))],
         outgoing := outgoing s1 @ enqueued b (calls r), inFlush := False\<rparr>)"
proof -
  have G: "\<And>s. inFlush s \<Longrightarrow> flush b n s = Some (None, s)" by (rule flush_when_guarded)
  have g: "inFlush (s\<lparr>inFlush := True\<rparr>)" by simp
  from loop_frame [OF G g L] have g1: "inFlush s1" by simp
  have "flush b (Suc n) s =
      report b (flush b n) (annotated fl (util_inspect b (outgoing s1)) v) s1"
    using c L nn by (cases v) (simp_all add: flush_body_def annotated_def)
  with report_guarded [OF G g1 R] show ?thesis by simp
qed

lemma flush_raised:
  assumes c: "\<not> inFlush s"
    and L: "loop b (flush b n) (Suc n) None (s\<lparr>inFlush := True\<rparr>) = Some (Raised (Obj e), fl, s1)"
    and R: "listeners b (Error (Obj (e\<lparr>exn_flags := fl,
              exn_outgoing := Some (util_inspect b (outgoing s1))\<rparr>))) (zmq s1) = (r, env)"
  shows "flush b (Suc n) s =
    Some (thrown r,
      s1\<lparr>zmq := env,
         trace := trace s1 @ [Emit (Error (Obj (e\<lparr>exn_flags := fl,
                    exn_outgoing := Some (util_inspect b (outgoing s1))\<rparr>)))],
         outgoing := outgoing s1 @ enqueued b (calls r), inFlush := False\<rparr>)"
proof -
  have G: "\<And>s. inFlush s \<Longrightarrow> flush b n s = Some (None, s)" by (rule flush_when_guarded)
  have g: "inFlush (s\<lparr>inFlush := True\<rparr>)" by simp
  from loop_frame [OF G g L] have g1: "inFlush s1" by simp
  show ?thesis
    using c L by (simp add: flush_body_def report_guarded [OF G g1 R])
qed

text \<open>
  C5. Let the loop of an activation leave with an exception \<open>e\<close>, with \<open>fl\<close> the local
  variable \<open>flags\<close> and \<open>s1\<close> the socket at that moment. A call of the handle that
  throws is always the last call the loop makes, and the loop leaves with what it threw
  (an exception that no call of the handle threw came from a listener of \<open>message\<close>).
  What the handle throws is an error object. Then \<open>_flush\<close> catches \<open>e\<close>: it stores
  \<open>fl\<close> as \<open>e.flags\<close> and the rendering of the queue of \<open>s1\<close> as \<open>e.outgoing\<close>,
  emits \<open>error\<close> with \<open>e\<close>, and does nothing after that. If the listeners of \<open>error\<close>
  return, \<open>_flush\<close> returns; if they throw (or there is none), \<open>_flush\<close> throws what
  they threw. Either way the guard is clear afterwards.
\<close>

theorem catch_reports_error:
  assumes "\<not> inFlush s"
    and "loop b (flush b n) (Suc n) None (s\<lparr>inFlush := True\<rparr>) = Some (Raised (Obj e), fl, s1)"
    and "listeners b (Error (Obj (e\<lparr>exn_flags := fl,
              exn_outgoing := Some (util_inspect b (outgoing s1))\<rparr>))) (zmq s1) = (r, env)"
  shows "\<exists>s2. flush b (Suc n) s = Some (thrown r, s2) \<and> \<not> inFlush s2 \<and>
           trace s2 = trace s1 @ [Emit (Error (Obj (e\<lparr>exn_flags := fl,
                         exn_outgoing := Some (util_inspect b (outgoing s1))\<rparr>)))] \<and>
           (\<exists>X. trace s1 = trace s @ X \<and> (throws X = [] \<or> ends_thrown e X))"
proof -
  have G: "\<And>s. inFlush s \<Longrightarrow> flush b n s = Some (None, s)" by (rule flush_when_guarded)
  have g: "inFlush (s\<lparr>inFlush := True\<rparr>)" by simp
  from loop_calls [OF G g assms(2)]
  have "\<exists>X. trace s1 = trace s @ X \<and> (throws X = [] \<or> ends_thrown e X)" by auto
  with flush_raised [OF assms] show ?thesis by simp
qed

theorem catch_reports_error_witness:
  "\<not> inFlush (jammed True) \<and>
   loop stub (flush stub 0) (Suc 0) None ((jammed True)\<lparr>inFlush := True\<rparr>) =
     Some (Raised (Obj (failure ''send'')), Some 2,
       (fresh (quiet\<lparr>refused := [ping], rethrow := True\<rparr>))
         \<lparr>inFlush := True, outgoing := [(pong, 0)],
          trace := [Get_ioevents (Inr 2), Send ping 0 (Some (failure ''send''))]\<rparr>) \<and>
   listeners stub (Error (Obj send_refused)) (quiet\<lparr>refused := [ping], rethrow := True\<rparr>) =
     (\<lparr>calls = [], thrown = Some (Obj send_refused)\<rparr>,
      quiet\<lparr>refused := [ping], rethrow := True\<rparr>) \<and>
   flush stub (Suc 0) (jammed True) =
     Some (Some (Obj send_refused),
       (fresh (quiet\<lparr>refused := [ping], rethrow := True\<rparr>))
         \<lparr>outgoing := [(pong, 0)],
          trace := [Get_ioevents (Inr 2), Send ping 0 (Some (failure ''send'')),
                    Emit (Error (Obj send_refused))]\<rparr>) \<and>
   ends_thrown (failure ''send'') [Get_ioevents (Inr 2), Send ping 0 (Some (failure ''send''))]"
  using catch_reports_error
      [of "jammed True" stub 0 "failure ''send''" "Some 2"
          "(fresh (quiet\<lparr>refused := [ping], rethrow := True\<rparr>))
             \<lparr>inFlush := True, outgoing := [(pong, 0)],
              trace := [Get_ioevents (Inr 2), Send ping 0 (Some (failure ''send''))]\<rparr>"
          "\<lparr>calls = [], thrown = Some (Obj send_refused)\<rparr>"
          "quiet\<lparr>refused := [ping], rethrow := True\<rparr>"]
  by (simp add: stub_def fresh_def quiet_def jammed_def send_refused_def failure_def ping_def
        pong_def flush_body_def report_def iteration_def emit_def masked_def Let_def
        send_burst.simps ends_thrown_def)

text \<open>
  C10. Let the loop of an activation leave with a thrown value \<open>v\<close>: what a call of
  the handle threw, or what a listener of \<open>message\<close> threw. When \<open>v\<close> is not
  \<open>null\<close> or \<open>undefined\<close>, the catch block emits \<open>error\<close> with it (with the two
  properties stored on it when it is an object). When the listeners of \<open>error\<close> return,
  the activation ends: \<open>_flush\<close> returns without an exception and with the guard clear;
  the one call it makes after the loop has left is the emission of \<open>error\<close>, so there is
  no further \<open>recv\<close> or \<open>send\<close> and the loop is not entered again; and the entries
  that were still queued when the loop left are still queued, for a later activation.
\<close>

theorem error_ends_activation:
  assumes "\<not> inFlush s"
    and "loop b (flush b n) (Suc n) None (s\<lparr>inFlush := True\<rparr>) = Some (Raised v, fl, s1)"
    and "v \<noteq> Nullish"
    and "listeners b (Error (annotated fl (util_inspect b (outgoing s1)) v)) (zmq s1) = (r, env)"
    and "thrown r = None"
  shows "\<exists>s2. flush b (Suc n) s = Some (None, s2) \<and> \<not> inFlush s2 \<and>
           calls_since (trace s1) (trace s2) =
             [Emit (Error (annotated fl (util_inspect b (outgoing s1)) v))] \<and>
           prefix (outgoing s1) (outgoing s2)"
  using flush_reported [OF assms(1-4)] assms(5) by (simp add: calls_since_def)

theorem error_ends_activation_witness:
  "\<not> inFlush (jammed False) \<and>
   loop stub (flush stub 0) (Suc 0) None ((jammed False)\<lparr>inFlush := True\<rparr>) =
     Some (Raised (Obj (failure ''send'')), Some 2,
       (fresh (quiet\<lparr>refused := [ping]\<rparr>))
         \<lparr>inFlush := True, outgoing := [(pong, 0)],
          trace := [Get_ioevents (Inr 2), Send ping 0 (Some (failure ''send''))]\<rparr>) \<and>
   annotated (Some 2) (util_inspect stub [(pong, 0)]) (Obj (failure ''send'')) =
     Obj send_refused \<and>
   listeners stub (Error (Obj send_refused)) (quiet\<lparr>refused := [ping]\<rparr>) =
     (\<lparr>calls = [], thrown = None\<rparr>, quiet\<lparr>refused := [ping]\<rparr>) \<and>
   flush stub (Suc 0) (jammed False) =
     Some (None,
       (fresh (quiet\<lparr>refused := [ping]\<rparr>))
         \<lparr>outgoing := [(pong, 0)],
          trace := [Get_ioevents (Inr 2), Send ping 0 (Some (failure ''send'')),
                    Emit (Error (Obj send_refused))]\<rparr>) \<and>
   \<not> inFlush grumbling \<and>
   loop stub (flush stub (Suc 0)) (Suc (Suc 0)) None (grumbling\<lparr>inFlush := True\<rparr>) =
     Some (Raised (Prim ''no''), Some 1,
       (fresh (quiet\<lparr>message_throws := Some (Prim ''no'')\<rparr>))
         \<lparr>inFlush := True,
          trace := [Get_ioevents (Inr 1), Recv (Inr ping), Get_receiveMore (Inr False),
                    Emit (Message [ping])]\<rparr>) \<and>
   annotated (Some 1) (util_inspect stub []) (Prim ''no'') = Prim ''no'' \<and>
   flush stub (Suc (Suc 0)) grumbling =
     Some (None,
       (fresh (quiet\<lparr>message_throws := Some (Prim ''no'')\<rparr>))
         \<lparr>trace := [Get_ioevents (Inr 1), Recv (Inr ping), Get_receiveMore (Inr False),
                    Emit (Message [ping]), Emit (Error (Prim ''no''))]\<rparr>)"
  using error_ends_activation
      [of "jammed False" stub 0 "Obj (failure ''send'')" "Some 2"
          "(fresh (quiet\<lparr>refused := [ping]\<rparr>))
             \<lparr>inFlush := True, outgoing := [(pong, 0)],
              trace := [Get_ioevents (Inr 2), Send ping 0 (Some (failure ''send''))]\<rparr>"
          "\<lparr>calls = [], thrown = None\<rparr>" "quiet\<lparr>refused := [ping]\<rparr>"]
    error_ends_activation
      [of grumbling stub "Suc 0" "Prim ''no''" "Some 1"
          "(fresh (quiet\<lparr>message_throws := Some (Prim ''no'')\<rparr>))
             \<lparr>inFlush := True,
              trace := [Get_ioevents (Inr 1), Recv (Inr ping), Get_receiveMore (Inr False),
                        Emit (Message [ping])]\<rparr>"
          "\<lparr>calls = [], thrown = None\<rparr>" "quiet\<lparr>message_throws := Some (Prim ''no'')\<rparr>"]
  by (simp add: stub_def fresh_def quiet_def jammed_def grumbling_def send_refused_def
        failure_def ping_def pong_def flush_body_def report_def iteration_def receive_def
        emit_def masked_def Let_def send_burst.simps annotated_def)

subsection \<open>The queue across an activation\<close>

lemma delivered_append [simp]: "delivered (xs @ ys) = delivered xs @ delivered ys"
  by (simp add: delivered_def)

lemma delivered_Nil [simp]: "delivered [] = []"
  by (simp add: delivered_def)

lemma delivered_Cons [simp]: "delivered (c # tr) = delivered_of c @ delivered tr"
  by (simp add: delivered_def)

lemma refusals_append [simp]: "refusals (xs @ ys) = refusals xs @ refusals ys"
  by (simp add: refusals_def)

lemma refusals_Nil [simp]: "refusals [] = []"
  by (simp add: refusals_def)

lemma refusals_Cons [simp]: "refusals (c # tr) = refused_of c @ refusals tr"
  by (simp add: refusals_def)

lemma sends_Cons: "sends (c # tr) = send_of c @ sends tr"
  by (simp add: sends_def)

lemma call_partition:
  "thrown_by c = [] \<Longrightarrow> send_of c = delivered_of c \<and> refused_of c = []"
  by (cases c rule: thrown_by.cases) simp_all

lemma call_thrown:
  "thrown_by c = [e] \<Longrightarrow> delivered_of c = [] \<and> send_of c = refused_of c \<and> length (refused_of c) \<le> 1"
  by (cases c rule: thrown_by.cases) simp_all

lemma calm_sends: "throws X = [] \<Longrightarrow> sends X = delivered X \<and> refusals X = []"
proof (induction X)
  case Nil
  then show ?case by simp
next
  case (Cons c X)
  then have "thrown_by c = []" "throws X = []" by simp_all
  with Cons.IH call_partition [of c] show ?case by (simp add: sends_Cons)
qed

lemma ends_thrown_sends:
  assumes "ends_thrown e X"
  shows "sends X = delivered X @ refusals X \<and> length (refusals X) \<le> 1"
proof -
  from assms have X: "X = butlast X @ [last X]" "thrown_by (last X) = [e]" "throws (butlast X) = []"
    by (simp_all add: ends_thrown_def)
  from calm_sends [OF X(3)] call_thrown [OF X(2)]
  have "sends (butlast X @ [last X]) = delivered (butlast X @ [last X]) @ refusals (butlast X @ [last X]) \<and>
        length (refusals (butlast X @ [last X])) \<le> 1"
    by (simp add: sends_Cons)
  with X(1) show ?thesis by simp
qed

lemma after_simps [simp]:
  "after b env (Get_ioevents x) = snd (ioevents b env)"
  "after b env (Get_receiveMore y) = snd (receiveMore b env)"
  "after b env (Recv z) = snd (zmq_recv b env)"
  "after b env (Send payload sflags u) = snd (zmq_send b payload sflags env)"
  "after b env (Emit ev) = snd (listeners b ev env)"
  by (simp_all add: after_def)

lemma queued_at_simps [simp]:
  "queued_at b env (Get_ioevents x) = []"
  "queued_at b env (Get_receiveMore y) = []"
  "queued_at b env (Recv z) = []"
  "queued_at b env (Send payload sflags u) = []"
  "queued_at b env (Emit ev) = enqueued b (calls (fst (listeners b ev env)))"
  by (simp_all add: queued_at_def)

lemma replay_append [simp]: "replay b env (X @ Y) = replay b (replay b env X) Y"
  by (induction X arbitrary: env) simp_all

lemma queued_by_append [simp]:
  "queued_by b env (X @ Y) = queued_by b env X @ queued_by b (replay b env X) Y"
  by (induction X arbitrary: env) simp_all










lemma flush_account:
  assumes c: "\<not> inFlush s" and f: "flush b n s = Some (r, s')"
  shows "watcher s' = watcher s \<and>
         (\<exists>X added. trace s' = trace s @ X \<and>
            delivered X @ refusals X @ outgoing s' = outgoing s @ added \<and>
            sends X = delivered X @ refusals X \<and> length (refusals X) \<le> 1)"
proof (cases n)
  case 0
  with c f show ?thesis by (simp add: flush_body_def)
next
  case (Suc m)
  have G: "\<And>s. inFlush s \<Longrightarrow> flush b m s = Some (None, s)" by (rule flush_when_guarded)
  have g: "inFlush (s\<lparr>inFlush := True\<rparr>)" by simp
  have loop_account: "watcher s1 = watcher s \<and>
         (\<exists>X added. trace s1 = trace s @ X \<and>
            delivered X @ refusals X @ outgoing s1 = outgoing s @ added \<and>
            sends X = delivered X @ refusals X \<and> length (refusals X) \<le> 1)"
    if L: "loop b (flush b m) (Suc m) None (s\<lparr>inFlush := True\<rparr>) = Some (x, fl, s1)"
    for x fl s1
  proof -
    from loop_frame [OF G g L] obtain added where
      fr: "watcher s1 = watcher s"
        "sends (trace s1) @ outgoing s1 = sends (trace s) @ outgoing s @ added" by auto
    from loop_calls [OF G g L] obtain X where
      X: "trace s1 = trace s @ X" "throws X = [] \<or> (\<exists>e. x = Raised (Obj e) \<and> ends_thrown e X)"
      by auto
    from fr(2) X(1) have acc: "sends X @ outgoing s1 = outgoing s @ added" by simp
    from X(2) have tidy: "sends X = delivered X @ refusals X \<and> length (refusals X) \<le> 1"
      using calm_sends [of X] ends_thrown_sends [of _ X] by auto
    from acc tidy have "delivered X @ refusals X @ outgoing s1 = outgoing s @ added" by simp
    with X(1) tidy have "\<exists>X added. trace s1 = trace s @ X \<and>
            delivered X @ refusals X @ outgoing s1 = outgoing s @ added \<and>
            sends X = delivered X @ refusals X \<and> length (refusals X) \<le> 1" by blast
    with fr(1) show ?thesis by simp
  qed
  from c f [unfolded Suc] show ?thesis
  proof (cases rule: flush_exits)
    case (finished fl s1)
    from loop_account [OF finished(1)] finished(3) show ?thesis by simp
  next
    case (returned fl s1)
    from loop_account [OF returned(1)] returned(3) show ?thesis by simp
  next
    case (nullish fl s1)
    from loop_account [OF nullish(1)] nullish(3) show ?thesis by simp
  next
    case (reported v fl s1 rr env)
    let ?ev = "Emit (Error (annotated fl (util_inspect b (outgoing s1)) v))"
    from loop_account [OF reported(1)] obtain X added where
      X: "watcher s1 = watcher s" "trace s1 = trace s @ X"
        "delivered X @ refusals X @ outgoing s1 = outgoing s @ added"
        "sends X = delivered X @ refusals X" "length (refusals X) \<le> 1" by blast
    have "trace s' = trace s @ (X @ [?ev]) \<and>
          delivered (X @ [?ev]) @ refusals (X @ [?ev]) @ outgoing s' =
            outgoing s @ (added @ enqueued b (calls rr)) \<and>
          sends (X @ [?ev]) = delivered (X @ [?ev]) @ refusals (X @ [?ev]) \<and>
          length (refusals (X @ [?ev])) \<le> 1"
      using X reported(5) by simp
    then have "\<exists>X added. trace s' = trace s @ X \<and>
            delivered X @ refusals X @ outgoing s' = outgoing s @ added \<and>
            sends X = delivered X @ refusals X \<and> length (refusals X) \<le> 1" by blast
    with X(1) reported(5) show ?thesis by simp
  qed
qed




subsection \<open>The order of the sends\<close>

lemma burst_drains:
  assumes W: "always_writable b" and S: "accepts_all b"
  shows "flags AND ZMQ_POLLOUT b \<noteq> 0 \<Longrightarrow>
    \<exists>fl' s' X. send_burst b flags s = (None, fl', s') \<and> outgoing s' = [] \<and>
       inFlush s' = inFlush s \<and> trace s' = trace s @ X \<and> sends X = outgoing s \<and>
       throws X = [] \<and> emitted X = []"
proof (induction "outgoing s" arbitrary: s flags)
  case Nil
  then have "send_burst b flags s = (None, flags, s)" by (subst send_burst.simps) simp
  with Nil show ?case by (intro exI [of _ flags] exI [of _ s] exI [of _ "[]"]) simp
next
  case (Cons x rest)
  obtain p f where x: "x = (p, f)" by (cases x)
  with Cons.hyps(2) have q: "outgoing s = (p, f) # rest" by simp
  obtain r env where z: "zmq_send b p f (zmq s) = (r, env)" by (cases "zmq_send b p f (zmq s)")
  with S have r: "r = None" unfolding accepts_all_def by (metis fst_conv)
  from W obtain w env' where i: "ioevents b env = (Inr w, env')" and w: "writable_only b w"
    unfolding always_writable_def by blast
  let ?s1 = "s\<lparr>zmq := env', outgoing := rest,
               trace := trace s @ [Send p f None, Get_ioevents (Inr w)]\<rparr>"
  have step: "send_burst b flags s = send_burst b w ?s1"
    using Cons.prems q z r i by (intro send_burst_step) simp_all
  have "rest = outgoing ?s1" by simp
  moreover have "w AND ZMQ_POLLOUT b \<noteq> 0" using w by (simp add: writable_only_def)
  ultimately obtain fl' s' X where IH: "send_burst b w ?s1 = (None, fl', s')" "outgoing s' = []"
    "inFlush s' = inFlush ?s1" "trace s' = trace ?s1 @ X" "sends X = outgoing ?s1"
    "throws X = []" "emitted X = []"
    using Cons.hyps(1) [of ?s1 w] by blast
  show ?case
  proof (intro exI [of _ fl'] exI [of _ s']
      exI [of _ "Send p f None # Get_ioevents (Inr w) # X"] conjI)
    show "send_burst b flags s = (None, fl', s')" using step IH(1) by simp
    show "outgoing s' = []" by (rule IH(2))
    show "inFlush s' = inFlush s" using IH(3) by simp
    show "trace s' = trace s @ Send p f None # Get_ioevents (Inr w) # X" using IH(4) by simp
    show "sends (Send p f None # Get_ioevents (Inr w) # X) = outgoing s" using IH(5) q by simp
    show "throws (Send p f None # Get_ioevents (Inr w) # X) = []" using IH(6) by simp
    show "emitted (Send p f None # Get_ioevents (Inr w) # X) = []" using IH(7) by simp
  qed
qed

lemma iteration_drains:
  assumes W: "always_writable b" and S: "accepts_all b"
  shows "\<exists>st fl' s' X. iteration b F k fl s = Some (st, fl', s') \<and>
           st = (if outgoing s = [] then Leave Done else Continue) \<and>
           outgoing s' = [] \<and> inFlush s' = inFlush s \<and> trace s' = trace s @ X \<and>
           sends X = outgoing s \<and> throws X = [] \<and> emitted X = []"
proof -
  from W obtain w env where i: "ioevents b (zmq s) = (Inr w, env)" and w: "writable_only b w"
    unfolding always_writable_def by blast
  let ?s1 = "s\<lparr>zmq := env, trace := trace s @ [Get_ioevents (Inr w)]\<rparr>"
  show ?thesis
  proof (cases "outgoing s = []")
    case True
    with w have "masked b (outgoing s) w = 0" by (simp add: masked_def writable_only_def)
    with i True have "iteration b F k fl s = Some (Leave Done, Some 0, ?s1)"
      by (simp add: iteration_def)
    with True show ?thesis
      by (intro exI [of _ "Leave Done"] exI [of _ "Some 0"] exI [of _ ?s1]
            exI [of _ "[Get_ioevents (Inr w)]"]) simp
  next
    case False
    with w have m: "masked b (outgoing s) w = w" "w \<noteq> 0" "w AND ZMQ_POLLIN b = 0"
      "w AND ZMQ_POLLOUT b \<noteq> 0"
      by (auto simp: masked_def writable_only_def)
    from burst_drains [OF W S m(4), of ?s1] obtain fl1 s1 X where
      B: "send_burst b w ?s1 = (None, fl1, s1)" "outgoing s1 = []" "inFlush s1 = inFlush ?s1"
        "trace s1 = trace ?s1 @ X" "sends X = outgoing ?s1" "throws X = []" "emitted X = []"
      by blast
    from i m B(1) False have "iteration b F k fl s = Some (Continue, Some fl1, s1)"
      by (simp add: iteration_def)
    with False B show ?thesis
      by (intro exI [of _ Continue] exI [of _ "Some fl1"] exI [of _ s1]
            exI [of _ "Get_ioevents (Inr w) # X"]) simp
  qed
qed

lemma loop_drains:
  assumes W: "always_writable b" and S: "accepts_all b"
  shows "\<exists>fl' s' X. loop b F (Suc (Suc n)) fl s = Some (Done, fl', s') \<and>
           outgoing s' = [] \<and> inFlush s' = inFlush s \<and> trace s' = trace s @ X \<and>
           sends X = outgoing s \<and> throws X = [] \<and> emitted X = []"
proof -
  from iteration_drains [OF W S, of F "Suc n" fl s] obtain st fl1 s1 X where
    I1: "iteration b F (Suc n) fl s = Some (st, fl1, s1)"
      "st = (if outgoing s = [] then Leave Done else Continue)"
      "outgoing s1 = []" "inFlush s1 = inFlush s" "trace s1 = trace s @ X"
      "sends X = outgoing s" "throws X = []" "emitted X = []" by blast
  show ?thesis
  proof (cases "outgoing s = []")
    case True
    with I1 have "loop b F (Suc (Suc n)) fl s = Some (Done, fl1, s1)" by simp
    with I1 show ?thesis by (intro exI [of _ fl1] exI [of _ s1] exI [of _ X]) simp
  next
    case False
    from iteration_drains [OF W S, of F n fl1 s1] I1(3) obtain fl2 s2 Z where
      I2: "iteration b F n fl1 s1 = Some (Leave Done, fl2, s2)"
        "outgoing s2 = []" "inFlush s2 = inFlush s1" "trace s2 = trace s1 @ Z"
        "sends Z = outgoing s1" "throws Z = []" "emitted Z = []" by auto
    from False I1 I2(1) have "loop b F (Suc (Suc n)) fl s = Some (Done, fl2, s2)" by simp
    with I1 I2 show ?thesis by (intro exI [of _ fl2] exI [of _ s2] exI [of _ "X @ Z"]) simp
  qed
qed

lemma flush_drains:
  assumes W: "always_writable b" and S: "accepts_all b" and c: "\<not> inFlush s"
  shows "\<exists>s' X. flush b (Suc (Suc n)) s = Some (None, s') \<and> \<not> inFlush s' \<and>
           outgoing s' = [] \<and> trace s' = trace s @ X \<and> sends X = outgoing s \<and>
           throws X = [] \<and> emitted X = []"
proof -
  from loop_drains [OF W S, of "flush b (Suc n)" n None "s\<lparr>inFlush := True\<rparr>"]
  obtain fl1 s1 X where
    L: "loop b (flush b (Suc n)) (Suc (Suc n)) None (s\<lparr>inFlush := True\<rparr>) = Some (Done, fl1, s1)"
      "outgoing s1 = []" "trace s1 = trace (s\<lparr>inFlush := True\<rparr>) @ X"
      "sends X = outgoing (s\<lparr>inFlush := True\<rparr>)" "throws X = []" "emitted X = []" by blast
  from c L(1) have "flush b (Suc (Suc n)) s = Some (None, s1\<lparr>inFlush := False\<rparr>)"
    by (simp add: flush_body_def)
  with L show ?thesis
    by (intro exI [of _ "s1\<lparr>inFlush := False\<rparr>"] exI [of _ X]) simp
qed

text \<open>
  C3. A send burst takes the entries from the front of the queue: the entries it handed
  to the handle's \<open>send\<close>, in the order of the calls, followed by the queue it leaves
  are the queue it found. A burst that ends without a throw has read the readiness
  bitmask after every single send; every value it read but the last reported writable,
  and it stopped because the queue was empty or the last value read did not report
  writable. And on a handle that always reports writable (and nothing else) and accepts
  every send, \<open>send(G1)\<close> followed by \<open>send(G2)\<close> both return, leave the queue empty,
  and the calls of the handle's \<open>send\<close> they made carry, in order, the entries that were
  queued before, the parts of \<open>G1\<close> and the parts of \<open>G2\<close>. Whatever the readiness, the
  calls of the handle's \<open>send\<close> of an activation carry the entries from the front of the
  queue in their order: together with the queue after the activation they are the queue
  before it, followed by what listeners queued during it.
\<close>

theorem fifo_order:
  "(send_burst b flags s = (r, flags', s') \<longrightarrow>
      (\<exists>X. trace s' = trace s @ X \<and> sends X @ outgoing s' = outgoing s)) \<and>
   (send_burst b flags s = (None, flags', s') \<longrightarrow>
      (\<exists>ws. length ws \<le> length (outgoing s) \<and>
         trace s' = trace s @ burst_trace (outgoing s) ws \<and>
         outgoing s' = drop (length ws) (outgoing s) \<and>
         flags' = last (flags # ws) \<and>
         (outgoing s' = [] \<or> flags' AND ZMQ_POLLOUT b = 0) \<and>
         (\<forall>w\<in>set (butlast (flags # ws)). w AND ZMQ_POLLOUT b \<noteq> 0))) \<and>
   (always_writable b \<and> accepts_all b \<and> \<not> inFlush s0 \<longrightarrow>
      (\<exists>s1 s2 X.
         send b (flush b (Suc (Suc n))) G1 s0 = Some (None, s1) \<and>
         send b (flush b (Suc (Suc n))) G2 s1 = Some (None, s2) \<and>
         trace s2 = trace s0 @ X \<and>
         sends X = outgoing s0 @ spec_entries b G1 @ spec_entries b G2 \<and>
         throws X = [] \<and> outgoing s2 = [])) \<and>
   (\<not> inFlush t \<and> flush b m t = Some (r', t') \<longrightarrow>
      (\<exists>X added. trace t' = trace t @ X \<and> sends X @ outgoing t' = outgoing t @ added))"
proof (intro conjI impI)
  assume "\<not> inFlush t \<and> flush b m t = Some (r', t')"
  then have "\<not> inFlush t" and "flush b m t = Some (r', t')" by simp_all
  from flush_account [OF this] obtain X added where
    "trace t' = trace t @ X" "delivered X @ refusals X @ outgoing t' = outgoing t @ added"
    "sends X = delivered X @ refusals X" by blast
  then have "trace t' = trace t @ X \<and> sends X @ outgoing t' = outgoing t @ added" by simp
  then show "\<exists>X added. trace t' = trace t @ X \<and> sends X @ outgoing t' = outgoing t @ added"
    by blast
next
  assume a: "send_burst b flags s = (r, flags', s')"
  from send_burst_calls [OF a] obtain X where X: "trace s' = trace s @ X" by auto
  with send_burst_frame [OF a] have "sends X @ outgoing s' = outgoing s" by simp
  with X show "\<exists>X. trace s' = trace s @ X \<and> sends X @ outgoing s' = outgoing s" by blast
next
  assume "send_burst b flags s = (None, flags', s')"
  then show "\<exists>ws. length ws \<le> length (outgoing s) \<and>
         trace s' = trace s @ burst_trace (outgoing s) ws \<and>
         outgoing s' = drop (length ws) (outgoing s) \<and>
         flags' = last (flags # ws) \<and>
         (outgoing s' = [] \<or> flags' AND ZMQ_POLLOUT b = 0) \<and>
         (\<forall>w\<in>set (butlast (flags # ws)). w AND ZMQ_POLLOUT b \<noteq> 0)"
    by (rule send_burst_returns)
next
  assume a: "always_writable b \<and> accepts_all b \<and> \<not> inFlush s0"
  then have W: "always_writable b" and S: "accepts_all b" and c: "\<not> inFlush s0" by simp_all
  let ?t0 = "s0\<lparr>outgoing := outgoing s0 @ spec_entries b G1\<rparr>"
  have "\<not> inFlush ?t0" using c by simp
  from flush_drains [OF W S this, of n] obtain s1 X1 where
    1: "flush b (Suc (Suc n)) ?t0 = Some (None, s1)" "\<not> inFlush s1" "outgoing s1 = []"
      "trace s1 = trace ?t0 @ X1" "sends X1 = outgoing ?t0" "throws X1 = []" by blast
  let ?t1 = "s1\<lparr>outgoing := outgoing s1 @ spec_entries b G2\<rparr>"
  have "\<not> inFlush ?t1" using 1(2) by simp
  from flush_drains [OF W S this, of n] obtain s2 X2 where
    2: "flush b (Suc (Suc n)) ?t1 = Some (None, s2)" "\<not> inFlush s2" "outgoing s2 = []"
      "trace s2 = trace ?t1 @ X2" "sends X2 = outgoing ?t1" "throws X2 = []" by blast
  show "\<exists>s1 s2 X.
         send b (flush b (Suc (Suc n))) G1 s0 = Some (None, s1) \<and>
         send b (flush b (Suc (Suc n))) G2 s1 = Some (None, s2) \<and>
         trace s2 = trace s0 @ X \<and>
         sends X = outgoing s0 @ spec_entries b G1 @ spec_entries b G2 \<and>
         throws X = [] \<and> outgoing s2 = []"
  proof (rule exI [of _ s1], rule exI [of _ s2], rule exI [of _ "X1 @ X2"], intro conjI)
    show "send b (flush b (Suc (Suc n))) G1 s0 = Some (None, s1)"
      using 1(1) by (simp add: send_def build_parts_spec)
    show "send b (flush b (Suc (Suc n))) G2 s1 = Some (None, s2)"
      using 2(1) by (simp add: send_def build_parts_spec)
    show "trace s2 = trace s0 @ X1 @ X2" using 1(4) 2(4) by simp
    show "sends (X1 @ X2) = outgoing s0 @ spec_entries b G1 @ spec_entries b G2"
      using 1(3,5) 2(5) by simp
    show "throws (X1 @ X2) = []" using 1(6) 2(6) by simp
    show "outgoing s2 = []" by (rule 2(3))
  qed
qed

theorem fifo_order_witness:
  "send_burst stub 2 loaded =
     (None, 0, (fresh quiet)\<lparr>trace := burst_trace [(ping, 2), (pong, 0)] [2, 0]\<rparr>) \<and>
   burst_trace [(ping, 2), (pong, 0)] [2, 0] =
     [Send ping 2 None, Get_ioevents (Inr 2), Send pong 0 None, Get_ioevents (Inr 0)] \<and>
   always_writable writable_stub \<and> accepts_all writable_stub \<and> \<not> inFlush plain \<and>
   send writable_stub (flush writable_stub (Suc (Suc 0))) [Buffer ping, Buffer pong] plain =
     Some (None,
       plain\<lparr>trace := [Get_ioevents (Inr 2), Send ping 2 None, Get_ioevents (Inr 2),
                        Send pong 0 None, Get_ioevents (Inr 2), Get_ioevents (Inr 2)]\<rparr>) \<and>
   send writable_stub (flush writable_stub (Suc (Suc 0))) [Buffer ping]
       (plain\<lparr>trace := [Get_ioevents (Inr 2), Send ping 2 None, Get_ioevents (Inr 2),
                        Send pong 0 None, Get_ioevents (Inr 2), Get_ioevents (Inr 2)]\<rparr>) =
     Some (None,
       plain\<lparr>trace := [Get_ioevents (Inr 2), Send ping 2 None, Get_ioevents (Inr 2),
                        Send pong 0 None, Get_ioevents (Inr 2), Get_ioevents (Inr 2),
                        Get_ioevents (Inr 2), Send ping 0 None, Get_ioevents (Inr 2),
                        Get_ioevents (Inr 2)]\<rparr>) \<and>
   flush stub (Suc (Suc 0)) loaded =
     Some (None,
       (fresh quiet)\<lparr>trace := [Get_ioevents (Inr 2), Send ping 2 None, Get_ioevents (Inr 0),
                                Get_ioevents (Inr 0)],
                      outgoing := [(pong, 0)]\<rparr>)"
  using fifo_order
      [of stub 2 loaded None 0 "(fresh quiet)\<lparr>trace := burst_trace [(ping, 2), (pong, 0)] [2, 0]\<rparr>"
          "fresh quiet" 0 "[Buffer ping, Buffer pong]" "[Buffer ping]" loaded "Suc (Suc 0)" None
          "(fresh quiet)\<lparr>trace := [Get_ioevents (Inr 2), Send ping 2 None, Get_ioevents (Inr 0),
                                   Get_ioevents (Inr 0)],
                         outgoing := [(pong, 0)]\<rparr>"]
    fifo_order
      [of writable_stub 2 plain None 0 plain plain 0 "[Buffer ping, Buffer pong]" "[Buffer ping]"]
  by (simp add: stub_def writable_stub_def fresh_def quiet_def loaded_def plain_def ping_def
        pong_def flush_body_def iteration_def masked_def Let_def send_burst.simps send_def
        build_parts.simps always_writable_def accepts_all_def writable_only_def)

subsection \<open>The watcher around bind, bindSync and connect\<close>

text \<open>
  C8, as the specification states it, says that \<open>connect\<close> too stops the watcher before
  the operation and restarts it afterwards. \<open>connect\<close> only forwards to the handle: a
  call of it, here one that fails, makes the call of the handle's \<open>connect\<close> and no call
  of the watcher.
\<close>

theorem connect_leaves_watcher_alone:
  "connect lifecycle_stub ''bad'' plain =
     (Some (failure ''connect''), plain\<lparr>trace := [Zmq_connect ''bad'' (Some (failure ''connect''))]\<rparr>) \<and>
   calls_since (trace plain)
     (trace (snd (connect lifecycle_stub ''bad'' plain))) =
     [Zmq_connect ''bad'' (Some (failure ''connect''))] \<and>
   \<not> List.member (trace (snd (connect lifecycle_stub ''bad'' plain))) Watcher_stop \<and>
   \<not> List.member (trace (snd (connect lifecycle_stub ''bad'' plain))) Watcher_start"
  by (simp add: connect_def lifecycle_stub_def plain_def calls_since_def failure_def)

text \<open>
  C8, amended. \<open>bindSync\<close> stops the watcher, calls the handle's \<open>bindSync\<close> and
  restarts the watcher, whether that call returned or threw, before it returns or
  throws in turn. \<open>bind\<close> stops the watcher and calls the handle's \<open>bind\<close>; when the
  handle reports the outcome to the callback, the callback restarts the watcher before
  it passes the error, or nothing, to the caller's callback. \<open>connect\<close> calls the
  handle's \<open>connect\<close> and leaves the watcher as it was. (What \<open>bind\<close> does when the call
  of the handle's \<open>bind\<close> itself throws is not part of the statement.)
\<close>

theorem watcher_around_bind:
  "(bindSync l addr s = (r, s') \<longrightarrow>
      watcher s' \<and> r = fst (zmq_bindSync l addr (zmq s)) \<and>
      calls_since (trace s) (trace s') = [Watcher_stop, Zmq_bindSync addr r, Watcher_start]) \<and>
   (bind l addr s = (Inr err, s1) \<longrightarrow>
      \<not> watcher s1 \<and>
      calls_since (trace s) (trace s1) = [Watcher_stop, Zmq_bind addr None] \<and>
      watcher (snd (bind_callback cb err s2)) \<and>
      calls_since (trace s2) (trace (snd (bind_callback cb err s2))) =
        [Watcher_start, Callback err]) \<and>
   (connect l addr s = (r', s'') \<longrightarrow>
      watcher s'' = watcher s \<and> calls_since (trace s) (trace s'') = [Zmq_connect addr r'])"
  by (auto simp: bindSync_def bind_def bind_callback_def connect_def calls_since_def Let_def
           split: prod.splits option.splits sum.splits)

theorem watcher_around_bind_witness:
  "bindSync lifecycle_stub ''bad'' plain =
     (Some (failure ''bind''),
      plain\<lparr>trace := [Watcher_stop, Zmq_bindSync ''bad'' (Some (failure ''bind'')), Watcher_start]\<rparr>) \<and>
   bind lifecycle_stub ''bad'' plain =
     (Inr (Some (failure ''bind'')),
      plain\<lparr>watcher := False, trace := [Watcher_stop, Zmq_bind ''bad'' None]\<rparr>) \<and>
   bind_callback done_callback (Some (failure ''bind''))
       (plain\<lparr>watcher := False, trace := [Watcher_stop, Zmq_bind ''bad'' None]\<rparr>) =
     (None,
      plain\<lparr>trace := [Watcher_stop, Zmq_bind ''bad'' None, Watcher_start,
                       Callback (Some (failure ''bind''))]\<rparr>) \<and>
   connect lifecycle_stub ''bad'' plain =
     (Some (failure ''connect''), plain\<lparr>trace := [Zmq_connect ''bad'' (Some (failure ''connect''))]\<rparr>) \<and>
   watcher plain"
  using watcher_around_bind
      [of lifecycle_stub "''bad''" plain "Some (failure ''bind'')"
          "plain\<lparr>trace := [Watcher_stop, Zmq_bindSync ''bad'' (Some (failure ''bind'')), Watcher_start]\<rparr>"
          "Some (failure ''bind'')"
          "plain\<lparr>watcher := False, trace := [Watcher_stop, Zmq_bind ''bad'' None]\<rparr>"
          done_callback
          "plain\<lparr>watcher := False, trace := [Watcher_stop, Zmq_bind ''bad'' None]\<rparr>"
          "Some (failure ''connect'')"
          "plain\<lparr>trace := [Zmq_connect ''bad'' (Some (failure ''connect''))]\<rparr>"]
  by (simp add: bindSync_def bind_def bind_callback_def connect_def lifecycle_stub_def
        done_callback_def plain_def failure_def Let_def)

subsection \<open>createSocket\<close>

lemma types_unknown:
  "name \<notin> set type_names \<Longrightarrow> types name = Undefined \<or> types name = Inherited name"
  by (simp add: types_def own_types_def type_names_def)

text \<open>
  C9. For a type name that is not a key of the table of socket types, the constructor
  \<open>Socket\<close> and with it \<open>createSocket\<close> fail at once with the configuration error of
  the binding's constructor (\<open>zmq_Socket\<close>, modelled from the spec): no socket is built,
  and no option is assigned. That holds also for the names that the table inherits from
  \<open>Object.prototype\<close>, such as \<open>constructor\<close>, for which the lookup does not give
  \<open>undefined\<close>.
\<close>

theorem unknown_type_fails:
  assumes "typename \<notin> set type_names"
  shows "Socket open_handle typename = Inl configuration_error \<and>
         createSocket open_handle assign typename options = Inl configuration_error"
proof -
  from types_unknown [OF assms] show ?thesis
    by (auto simp: createSocket_def Socket_def zmq_Socket_def)
qed

theorem unknown_type_fails_witness:
  "''stream'' \<notin> set type_names \<and>
   types ''stream'' = Undefined \<and>
   Socket (\<lambda>ty. ()) ''stream'' = Inl configuration_error \<and>
   createSocket (\<lambda>ty. ()) (\<lambda>key v u. (None, u)) ''stream'' (Some [(''identity'', Text ''abc'')]) =
     Inl configuration_error \<and>
   ''constructor'' \<notin> set type_names \<and>
   types ''constructor'' = Inherited ''constructor'' \<and>
   createSocket (\<lambda>ty. ()) (\<lambda>key v u. (None, u)) ''constructor'' None = Inl configuration_error \<and>
   createSocket (\<lambda>ty. ()) (\<lambda>key v u. (None, u)) ''sub'' (Some [(''identity'', Text ''abc'')]) =
     Inr (plain\<lparr>trace := [Watcher_start]\<rparr>)"
  using unknown_type_fails [of "''stream''" "\<lambda>ty. ()" "\<lambda>key v u. (None, u)"
      "Some [(''identity'', Text ''abc'')]"]
    unknown_type_fails [of "''constructor''" "\<lambda>ty. ()" "\<lambda>key v u. (None, u)" None]
  by (simp add: type_names_def createSocket_def Socket_def zmq_Socket_def types_def own_types_def
        object_prototype_def plain_def)

end
